theory Spec2Isabelle
  imports Complex_Main "HOL-Library.AList"
begin

section \<open>Python values and exceptions\<close>

text \<open>
  The exceptions that the modelled functions of \<^verbatim>\<open>cache.py\<close>, \<^verbatim>\<open>utils.py\<close> and
  \<^verbatim>\<open>image.py\<close> can raise. A function that can raise returns \<open>error + 'a\<close>; a function
  that contains a \<^verbatim>\<open>while\<close> loop which may run forever returns an \<open>option\<close> around
  that, with \<open>None\<close> for "does not return".
\<close>

datatype error =
  ValueError | ZeroDivisionError | IndexError | KeyError | AttributeError | AssertionError |
  OverflowError

section \<open>utils.py\<close>

text \<open>
  \<^verbatim>\<open>cardinal_div_round(num, denom) = int(num + denom - 1) // int(denom)\<close>.
  Python's \<^verbatim>\<open>//\<close> on integers is floor division, as \<open>div\<close> on \<open>int\<close> is;
  division by zero raises.
\<close>

definition cardinal_div_round :: "int \<Rightarrow> int \<Rightarrow> error + int" where
  "cardinal_div_round num denom =
     (if denom = 0 then Inl ZeroDivisionError else Inr ((num + denom - 1) div denom))"

text \<open>
  \<^verbatim>\<open>cardinal_log2(x)\<close>: the loop \<^verbatim>\<open>while x % 2 == 0: n += 1; x //= 2\<close>, started at
  \<open>n = 0\<close>. It does not return for \<open>x = 0\<close>.
\<close>

partial_function (option) cardinal_log2_loop :: "int \<Rightarrow> int \<Rightarrow> int option" where
  "cardinal_log2_loop n x =
     (if x mod 2 = 0 then cardinal_log2_loop (n + 1) (x div 2) else Some n)"

declare cardinal_log2_loop.simps [code]

definition cardinal_log2 :: "int \<Rightarrow> int option" where
  "cardinal_log2 x = cardinal_log2_loop 0 x"

text \<open>
  \<^verbatim>\<open>range(start, stop, step)\<close> as the list of its elements; a zero step raises
  \<^verbatim>\<open>ValueError\<close>.
\<close>

definition py_range :: "int \<Rightarrow> int \<Rightarrow> int \<Rightarrow> error + int list" where
  "py_range start stop step =
     (if step = 0 then Inl ValueError
      else if 0 < step then
        Inr (map (\<lambda>i. start + int i * step) [0..<nat ((stop - start + step - 1) div step)])
      else
        Inr (map (\<lambda>i. start + int i * step) [0..<nat ((start - stop - step - 1) div (- step))]))"

text \<open>Truth value of an optional integer argument: \<^verbatim>\<open>None\<close> and \<open>0\<close> are false.\<close>

fun int_truthy :: "int option \<Rightarrow> bool" where
  "int_truthy None = False"
| "int_truthy (Some n) = (n \<noteq> 0)"

text \<open>
  The first loop of \<^verbatim>\<open>compute_tile_size\<close>: halve \<open>ts\<close> while it is even and the half
  is not below \<open>tile_size_min\<close>, counting the halvings. With \<open>ts = 0\<close> and
  \<open>tile_size_min \<le> 0\<close> the loop does not end.
\<close>

partial_function (option) halve_loop :: "int \<Rightarrow> int \<Rightarrow> int \<Rightarrow> (int \<times> int) option" where
  "halve_loop ts num_levels tile_size_min =
     (if ts mod 2 = 0 then
        (if ts div 2 < tile_size_min then Some (ts, num_levels)
         else halve_loop (ts div 2) (num_levels + 1) tile_size_min)
      else Some (ts, num_levels))"

declare halve_loop.simps [code]

text \<open>
  The body of the \<^verbatim>\<open>for ts in range(...)\<close> loop, run over the list of candidates with
  the loop state \<open>(min_penalty, best_tile_size)\<close>.
\<close>

fun scan_tile_sizes ::
  "int \<Rightarrow> int option \<Rightarrow> int option \<Rightarrow> bool \<Rightarrow> int list \<Rightarrow> int \<times> int option
     \<Rightarrow> (error + int \<times> int option) option" where
  "scan_tile_sizes total_size chunk_size num_levels_min int_div [] st = Some (Inr st)"
| "scan_tile_sizes total_size chunk_size num_levels_min int_div (ts # rest) (min_penalty, best) =
     (if int_div \<and> ts = 0 then Some (Inl ZeroDivisionError)
      else if int_div \<and> total_size mod ts \<noteq> 0 then
        scan_tile_sizes total_size chunk_size num_levels_min int_div rest (min_penalty, best)
      else
        (case cardinal_div_round total_size ts of
           Inl e \<Rightarrow> Some (Inl e)
         | Inr num_tiles \<Rightarrow>
            (case (if int_truthy num_levels_min
                   then map_option (\<lambda>num_levels. num_levels < the num_levels_min)
                          (cardinal_log2 (num_tiles * ts))
                   else Some False) of
               None \<Rightarrow> None
             | Some True \<Rightarrow>
                 scan_tile_sizes total_size chunk_size num_levels_min int_div rest (min_penalty, best)
             | Some False \<Rightarrow>
                (case (if int_truthy chunk_size
                       then (case cardinal_div_round ts (the chunk_size) of
                               Inl e \<Rightarrow> Inl e
                             | Inr num_chunks \<Rightarrow>
                                 Inr (ts * num_tiles - total_size + (ts * num_chunks - ts)))
                       else Inr (ts * num_tiles - total_size)) of
                   Inl e \<Rightarrow> Some (Inl e)
                 | Inr penalty \<Rightarrow>
                     scan_tile_sizes total_size chunk_size num_levels_min int_div rest
                       (if penalty < min_penalty then (penalty, Some ts)
                        else (min_penalty, best))))))"

definition compute_tile_size ::
  "int \<Rightarrow> int \<Rightarrow> int \<Rightarrow> int \<Rightarrow> int option \<Rightarrow> int option \<Rightarrow> bool \<Rightarrow> (error + int) option" where
  "compute_tile_size total_size tile_size_min tile_size_max tile_size_step
       chunk_size num_levels_min int_div =
     (case halve_loop total_size 0 tile_size_min of
        None \<Rightarrow> None
      | Some (ts, num_levels) \<Rightarrow>
         if ts \<le> tile_size_max \<and>
            (\<not> int_truthy num_levels_min \<or> the num_levels_min \<le> num_levels)
         then Some (Inr ts)
         else
           (case py_range tile_size_min (tile_size_max + 1) tile_size_step of
              Inl e \<Rightarrow> Some (Inl e)
            | Inr candidates \<Rightarrow>
               (case scan_tile_sizes total_size chunk_size num_levels_min int_div candidates
                       (10 * total_size, None) of
                  None \<Rightarrow> None
                | Some (Inl e) \<Rightarrow> Some (Inl e)
                | Some (Inr (min_penalty, best_tile_size)) \<Rightarrow>
                    if \<not> int_truthy best_tile_size then Some (Inl ValueError)
                    else Some (Inr (the best_tile_size)))))"

text \<open>The call with the default arguments \<open>180, 512, 2\<close>, as \<^verbatim>\<open>image.py\<close> makes it.\<close>

definition compute_tile_size_default :: "int \<Rightarrow> int option \<Rightarrow> bool \<Rightarrow> (error + int) option" where
  "compute_tile_size_default total_size chunk_size int_div =
     compute_tile_size total_size 180 512 2 chunk_size None int_div"

section \<open>image.py: pyramid layout\<close>

text \<open>
  What the code reads of an array: the shape, the chunking when the array has an
  attribute \<^verbatim>\<open>chunks\<close> that is not \<^verbatim>\<open>None\<close>, and the name of the element type.
\<close>

record ndarray_info =
  shape :: "int list"
  chunks :: "int list option"
  dtype :: string

text \<open>Indexing a sequence from its end, \<^verbatim>\<open>xs[-k]\<close> for \<open>k \<ge> 1\<close>.\<close>

definition from_end :: "int list \<Rightarrow> nat \<Rightarrow> error + int" where
  "from_end xs k =
     (if 1 \<le> k \<and> k \<le> length xs then Inr (xs ! (length xs - k)) else Inl IndexError)"

text \<open>Sequencing of computations that may raise or not return.\<close>

definition and_then ::
  "(error + 'a) option \<Rightarrow> ('a \<Rightarrow> (error + 'b) option) \<Rightarrow> (error + 'b) option" where
  "and_then m f = (case m of None \<Rightarrow> None | Some (Inl e) \<Rightarrow> Some (Inl e) | Some (Inr x) \<Rightarrow> f x)"

text \<open>
  The \<^verbatim>\<open>while True\<close> loop of \<^verbatim>\<open>compute_layout\<close> that counts the levels. It does not
  end when the doubled tile counts never cover the image, for instance with a tile width
  of zero.
\<close>

partial_function (option) num_levels_loop ::
  "int \<Rightarrow> int \<Rightarrow> int \<Rightarrow> int \<Rightarrow> int \<Rightarrow> int \<Rightarrow> int \<Rightarrow> int option" where
  "num_levels_loop num_tiles_x num_tiles_y tile_width tile_height max_width max_height num_levels =
     (if max_width \<le> num_tiles_x * tile_width \<and> max_height \<le> num_tiles_y * tile_height
      then Some num_levels
      else num_levels_loop (num_tiles_x * 2) (num_tiles_y * 2) tile_width tile_height
             max_width max_height (num_levels + 1))"

declare num_levels_loop.simps [code]

definition compute_layout ::
  "(int \<times> int) option \<Rightarrow> ndarray_info option \<Rightarrow> (int \<times> int) option \<Rightarrow> bool \<Rightarrow>
   (int \<times> int) option \<Rightarrow> int option \<Rightarrow>
   (error + (int \<times> int) \<times> (int \<times> int) \<times> (int \<times> int) \<times> int) option" where
  "compute_layout max_size array tile_size int_div num_level_zero_tiles num_levels =
     and_then
       (case array of
          None \<Rightarrow> Some (Inr (max_size, tile_size))
        | Some a \<Rightarrow>
           (case from_end (shape a) 1 of
              Inl e \<Rightarrow> Some (Inl e)
            | Inr sw \<Rightarrow>
               (case from_end (shape a) 2 of
                  Inl e \<Rightarrow> Some (Inl e)
                | Inr sh \<Rightarrow>
                   if max_size \<noteq> None \<and> max_size \<noteq> Some (sw, sh) then Some (Inl ValueError)
                   else if tile_size \<noteq> None then Some (Inr (Some (sw, sh), tile_size))
                   else
                     and_then
                       (case chunks a of
                          None \<Rightarrow> Some (Inr (None, None))
                        | Some cs \<Rightarrow>
                           (case from_end cs 1 of
                              Inl e \<Rightarrow> Some (Inl e)
                            | Inr cw \<Rightarrow>
                               (case from_end cs 2 of
                                  Inl e \<Rightarrow> Some (Inl e)
                                | Inr ch \<Rightarrow> Some (Inr (Some cw, Some ch)))))
                       (\<lambda>(chunk_width, chunk_height).
                          and_then (compute_tile_size_default sw chunk_width int_div)
                            (\<lambda>tw. and_then (compute_tile_size_default sh chunk_height int_div)
                               (\<lambda>th. Some (Inr (Some (sw, sh), Some (tw, th)))))))))
       (\<lambda>(max_size, tile_size).
          case max_size of
            None \<Rightarrow> Some (Inl ValueError)
          | Some (max_width, max_height) \<Rightarrow>
             and_then
               (case tile_size of
                  Some ts \<Rightarrow> Some (Inr ts)
                | None \<Rightarrow>
                   and_then (compute_tile_size_default max_width None int_div)
                     (\<lambda>tw. and_then (compute_tile_size_default max_height None int_div)
                        (\<lambda>th. Some (Inr (tw, th)))))
               (\<lambda>(tile_width, tile_height).
                  and_then
                    (case num_level_zero_tiles of
                       Some n \<Rightarrow> Some (Inr n)
                     | None \<Rightarrow>
                        (case cardinal_div_round max_width max_height of
                           Inl e \<Rightarrow> Some (Inl e)
                         | Inr nx \<Rightarrow>
                            (case cardinal_div_round max_height max_width of
                               Inl e \<Rightarrow> Some (Inl e)
                             | Inr ny \<Rightarrow> Some (Inr (nx, ny)))))
                    (\<lambda>(nx, ny).
                       and_then
                         (if int_truthy num_levels then Some (Inr (the num_levels))
                          else map_option Inr
                                 (num_levels_loop nx ny tile_width tile_height
                                    max_width max_height 1))
                         (\<lambda>n. Some (Inr ((max_width, max_height), (tile_width, tile_height),
                                           (nx, ny), n))))))"

text \<open>
  The tile counts of level \<open>z\<close>, and whether a pyramid of \<open>n\<close> levels covers the image
  at its finest level \<open>n - 1\<close>: the test of the loop after \<open>n - 1\<close> doublings.
\<close>

definition level_covers :: "int \<times> int \<Rightarrow> int \<times> int \<Rightarrow> int \<times> int \<Rightarrow> nat \<Rightarrow> bool" where
  "level_covers num_level_zero_tiles tile_size max_size n =
     (fst max_size \<le> fst num_level_zero_tiles * 2 ^ (n - 1) * fst tile_size \<and>
      snd max_size \<le> snd num_level_zero_tiles * 2 ^ (n - 1) * snd tile_size)"

subsection \<open>Images\<close>

text \<open>
  The attributes of an \<^verbatim>\<open>AbstractTiledImage\<close>, and those that a
  \<^verbatim>\<open>FastNdarrayDownsamplingImage\<close> adds; of its array the image uses the shape only.
\<close>

record tiled_image =
  width :: int
  height :: int
  tile_width :: int
  tile_height :: int
  num_tiles_x :: int
  num_tiles_y :: int
  image_id :: string
  mode :: "string option"
  format :: "string option"

record fast_image = tiled_image +
  array_shape :: "int list"
  z_index :: int
  zoom :: int

section \<open>cache.py\<close>

subsection \<open>Cached values\<close>

text \<open>
  The values that the repository puts into a cache: \<^verbatim>\<open>None\<close>, integers, strings and
  byte strings (an encoded tile), PIL images and numpy arrays. A \<open>PyImage\<close> or a
  \<open>PyNdarray\<close> is an object, named by a number, so that two payloads are the same
  object exactly when they are equal here. A \<open>PyNdarray\<close> stands for an array of more
  than one element, as every tile is.

  \<open>truthy\<close> is the truth value that \<^verbatim>\<open>if value:\<close> takes: \<^verbatim>\<open>None\<close>, \<open>0\<close> and the
  empty string are false, a PIL image is true as any object without \<^verbatim>\<open>__bool__\<close> and
  \<^verbatim>\<open>__len__\<close> is, and numpy refuses to give a truth value to an array of more than one
  element (\<^verbatim>\<open>ValueError\<close>). None of these values has an attribute \<^verbatim>\<open>restore\<close>.
\<close>

datatype pyval = PyNone | PyInt int | PyStr string | PyImage nat | PyNdarray nat

fun truthy :: "pyval \<Rightarrow> error + bool" where
  "truthy PyNone = Inr False"
| "truthy (PyInt n) = Inr (n \<noteq> 0)"
| "truthy (PyStr s) = Inr (s \<noteq> [])"
| "truthy (PyImage i) = Inr True"
| "truthy (PyNdarray i) = Inl ValueError"

subsection \<open>Stores\<close>

text \<open>
  A \<^verbatim>\<open>CacheStore\<close>: \<^verbatim>\<open>store_value\<close> returns the stored representation and its size,
  \<^verbatim>\<open>restore_value\<close> gives the value back. \<^verbatim>\<open>discard_value\<close> does nothing in the stores
  of this repository and has no result, so it has no field here.
\<close>

record store =
  store_value :: "string \<Rightarrow> pyval \<Rightarrow> pyval \<times> rat"
  restore_value :: "string \<Rightarrow> pyval \<Rightarrow> pyval"

definition MemoryCacheStore :: store where
  "MemoryCacheStore = \<lparr>store_value = (\<lambda>key value. (value, 1)),
                        restore_value = (\<lambda>key stored_value. stored_value)\<rparr>"

text \<open>
  \<^verbatim>\<open>MemoryTileCacheStore\<close> of \<^verbatim>\<open>image.py\<close> overrides \<^verbatim>\<open>store_value\<close> to report the
  size of the tile in bytes, which it reads from attributes of the tile
  (\<^verbatim>\<open>nbytes\<close>, or \<^verbatim>\<open>size\<close> and \<^verbatim>\<open>mode\<close>, or \<^verbatim>\<open>sys.getsizeof\<close>); that reading is the
  parameter \<open>tile_bytes\<close>.
\<close>

definition MemoryTileCacheStore :: "(pyval \<Rightarrow> rat) \<Rightarrow> store" where
  "MemoryTileCacheStore tile_bytes =
     \<lparr>store_value = (\<lambda>key tile. (tile, tile_bytes tile)),
      restore_value = (\<lambda>key stored_value. stored_value)\<rparr>"

subsection \<open>Numbers\<close>

text \<open>
  The cache computes with two kinds of numbers. The sizes that a store reports are added
  to and subtracted from \<^verbatim>\<open>self._size\<close>, which starts as the int \<open>0\<close>. The model does
  this arithmetic exactly, as Python does on ints; on float sizes Python rounds every sum
  and difference, so the properties of sizes below are stated for stores that report ints.
  The capacity is an int and the threshold a float, given by the rational number that is
  its value: \<^verbatim>\<open>self._capacity * self._threshold\<close> converts the capacity to a float and
  multiplies the two in binary64 arithmetic. Both steps round to the nearest float, ties
  to even (\<open>round_double\<close>: 53 significant bits, the least exponent that of the subnormal
  numbers). A product beyond the largest float is an infinity, and an int beyond it is
  not converted: \<^verbatim>\<open>OverflowError\<close>.
\<close>

datatype pyfloat = Finite rat | PosInf | NegInf

function floor_log2 :: "int \<Rightarrow> nat" where
  "floor_log2 n = (if n < 2 then 0 else Suc (floor_log2 (n div 2)))"
  by auto

termination floor_log2
  by (relation "measure nat") auto

declare floor_log2.simps [simp del]

definition pow2 :: "int \<Rightarrow> rat" where
  "pow2 k = (if 0 \<le> k then 2 ^ nat k else 1 / 2 ^ nat (- k))"

text \<open>The exponent \<open>e\<close> with \<open>2 ^ e \<le> a < 2 ^ (e + 1)\<close>, for a positive \<open>a\<close>.\<close>

definition binary_exponent :: "rat \<Rightarrow> int" where
  "binary_exponent a =
     (let (p, q) = quotient_of a;
          e = int (floor_log2 p) - int (floor_log2 q)
      in if pow2 e \<le> a then e else e - 1)"

definition round_half_even :: "rat \<Rightarrow> int" where
  "round_half_even y =
     (let f = \<lfloor>y\<rfloor>; d = y - of_int f
      in if d < 1 / 2 then f else if 1 / 2 < d then f + 1 else if even f then f else f + 1)"

definition round_double :: "rat \<Rightarrow> pyfloat" where
  "round_double x =
     (if x = 0 then Finite 0
      else
        let e = binary_exponent \<bar>x\<bar>;
            q = max (e - 52) (- 1074);
            m = round_half_even (\<bar>x\<bar> / pow2 q)
        in if 1024 \<le> e \<or> (e = 1023 \<and> m = 2 ^ 53) then (if 0 < x then PosInf else NegInf)
           else Finite (if 0 < x then of_int m * pow2 q else - (of_int m * pow2 q)))"

definition float_of_int :: "int \<Rightarrow> error + rat" where
  "float_of_int n =
     (case round_double (of_int n) of Finite x \<Rightarrow> Inr x | _ \<Rightarrow> Inl OverflowError)"

text \<open>
  \<^verbatim>\<open>x > m\<close> for a size \<open>x\<close> and a float \<open>m\<close>: Python compares an int with a float by
  their values.
\<close>

fun exceeds :: "rat \<Rightarrow> pyfloat \<Rightarrow> bool" where
  "exceeds x (Finite m) = (m < x)"
| "exceeds x PosInf = False"
| "exceeds x NegInf = True"

subsection \<open>Items and the clock\<close>

text \<open>
  \<^verbatim>\<open>time.clock() - _T0\<close> is read from the environment. The clock is the sequence
  \<open>clk\<close> of its successive readings, and the number of readings taken so far is threaded
  through every operation.
\<close>

type_synonym clock = "nat \<Rightarrow> rat"

record item =
  key :: string
  stored_value :: pyval
  stored_size :: rat
  creation_time :: rat
  access_time :: rat
  access_count :: int

definition access :: "clock \<Rightarrow> nat \<Rightarrow> item \<Rightarrow> item" where
  "access clk t it = it\<lparr>access_time := clk t, access_count := access_count it + 1\<rparr>"

text \<open>
  \<^verbatim>\<open>Item.store\<close> on a fresh item, or on one that \<^verbatim>\<open>discard\<close> has just reset by
  \<^verbatim>\<open>__init__\<close>: every field is set anew, and \<^verbatim>\<open>access\<close> reads the clock once.
\<close>

definition item_store :: "store \<Rightarrow> clock \<Rightarrow> nat \<Rightarrow> string \<Rightarrow> pyval \<Rightarrow> item" where
  "item_store st clk t k v =
     (let (sv, sz) = store_value st k v
      in access clk t \<lparr>key = k, stored_value = sv, stored_size = sz, creation_time = 0,
                        access_time = 0, access_count = 0\<rparr>)"

subsection \<open>Replacement policies\<close>

definition POLICY_LRU :: "item \<Rightarrow> rat" where
  "POLICY_LRU it = access_time it"

definition POLICY_MRU :: "item \<Rightarrow> rat" where
  "POLICY_MRU it = - access_time it"

definition POLICY_LFU :: "item \<Rightarrow> rat" where
  "POLICY_LFU it = of_int (access_count it)"

definition POLICY_RR :: "item \<Rightarrow> rat" where
  "POLICY_RR it = of_int (access_count it mod 2)"

subsection \<open>The cache\<close>

text \<open>
  The fields of a \<^verbatim>\<open>Cache\<close> object. \<open>item_dict\<close> is the dictionary in insertion order
  (an association list, read with \<open>map_of\<close>); \<open>item_list\<close> holds the same item objects.
  The link to the parent cache makes the type recursive, so it is the second component
  of the datatype \<open>cache\<close>.
\<close>

record cache_fields =
  store :: store
  capacity :: int
  threshold :: rat
  policy :: "item \<Rightarrow> rat"
  size_c :: rat
  max_size :: pyfloat
  item_dict :: "(string \<times> item) list"
  item_list :: "item list"

datatype cache = Cache (fields: cache_fields) (parent_cache: "cache option")

text \<open>
  \<^verbatim>\<open>Cache.__init__\<close>. \<open>max_size\<close> is the float that \<^verbatim>\<open>self._capacity * self._threshold\<close>
  evaluates to.
\<close>

definition new_cache ::
  "store \<Rightarrow> int \<Rightarrow> rat \<Rightarrow> (item \<Rightarrow> rat) \<Rightarrow> cache option \<Rightarrow> error + cache" where
  "new_cache st cap thr pol par =
     (case float_of_int cap of
        Inl e \<Rightarrow> Inl e
      | Inr c \<Rightarrow>
          Inr (Cache \<lparr>store = st, capacity = cap, threshold = thr, policy = pol, size_c = 0,
                      max_size = round_double (c * thr), item_dict = [], item_list = []\<rparr> par))"

text \<open>
  \<^verbatim>\<open>get_value\<close>. A resident item is accessed (the one object that the dictionary and
  the list share changes) and its value restored. Otherwise the parent is asked; what
  comes back is a value, not an item, and when it is true the call
  \<^verbatim>\<open>item.restore(...)\<close> on it raises \<^verbatim>\<open>AttributeError\<close>.
\<close>

fun get_value :: "clock \<Rightarrow> string \<Rightarrow> cache \<Rightarrow> nat \<Rightarrow> error + pyval \<times> cache \<times> nat" where
  "get_value clk k (Cache f par) t =
     (case map_of (item_dict f) k of
        Some it \<Rightarrow>
          Inr (restore_value (store f) k (stored_value it),
               Cache (f\<lparr>item_dict := AList.update k (access clk t it) (item_dict f),
                        item_list := map (\<lambda>i. if i = it then access clk t it else i)
                                       (item_list f)\<rparr>) par,
               Suc t)
      | None \<Rightarrow>
         (case par of
            Some p \<Rightarrow>
              (case get_value clk k p t of
                 Inl e \<Rightarrow> Inl e
               | Inr (v, p', t') \<Rightarrow>
                  (case truthy v of
                     Inl e \<Rightarrow> Inl e
                   | Inr True \<Rightarrow> Inl AttributeError
                   | Inr False \<Rightarrow> Inr (PyNone, Cache f (Some p'), t')))
          | None \<Rightarrow> Inr (PyNone, Cache f None, t)))"

text \<open>\<^verbatim>\<open>_remove_item\<close>: \<^verbatim>\<open>dict.pop\<close> and \<^verbatim>\<open>list.remove\<close> raise when there is nothing to remove.\<close>

definition remove_item :: "item \<Rightarrow> cache_fields \<Rightarrow> error + cache_fields" where
  "remove_item it f =
     (if map_of (item_dict f) (key it) = None then Inl KeyError
      else if it \<notin> set (item_list f) then Inl ValueError
      else Inr (f\<lparr>item_dict := AList.delete (key it) (item_dict f),
                  item_list := remove1 it (item_list f)\<rparr>))"

definition add_item :: "item \<Rightarrow> cache_fields \<Rightarrow> cache_fields" where
  "add_item it f = f\<lparr>item_dict := AList.update (key it) it (item_dict f),
                     item_list := item_list f @ [it]\<rparr>"

text \<open>The local part of \<^verbatim>\<open>remove_value\<close> and of the replacement in \<^verbatim>\<open>put_value\<close>.\<close>

definition remove_local :: "string \<Rightarrow> cache_fields \<Rightarrow> error + cache_fields" where
  "remove_local k f =
     (case map_of (item_dict f) k of
        Some it \<Rightarrow>
         (case remove_item it f of
            Inl e \<Rightarrow> Inl e
          | Inr f' \<Rightarrow> Inr (f'\<lparr>size_c := size_c f' - stored_size it\<rparr>))
      | None \<Rightarrow> Inr f)"

fun remove_value :: "string \<Rightarrow> cache \<Rightarrow> error + cache" where
  "remove_value k (Cache f par) =
     (case (case par of
              None \<Rightarrow> Inr None
            | Some p \<Rightarrow> (case remove_value k p of Inl e \<Rightarrow> Inl e | Inr p' \<Rightarrow> Inr (Some p'))) of
        Inl e \<Rightarrow> Inl e
      | Inr par' \<Rightarrow>
         (case remove_local k f of
            Inl e \<Rightarrow> Inl e
          | Inr f' \<Rightarrow> Inr (Cache f' par')))"

text \<open>
  The first loop of \<^verbatim>\<open>trim\<close>, over the sorted item list: an item becomes a victim as
  long as the projected size with \<open>extra_size\<close> is above \<open>max_size\<close>.
\<close>

fun select_keys :: "rat \<Rightarrow> pyfloat \<Rightarrow> rat \<Rightarrow> item list \<Rightarrow> string list" where
  "select_keys extra_size max_sz sz [] = []"
| "select_keys extra_size max_sz sz (it # its) =
     (if exceeds (sz + extra_size) max_sz
      then key it # select_keys extra_size max_sz (sz - stored_size it) its
      else select_keys extra_size max_sz sz its)"

text \<open>The length of the chain of parent caches.\<close>

fun depth :: "cache \<Rightarrow> nat" where
  "depth (Cache f None) = 0"
| "depth (Cache f (Some p)) = Suc (depth p)"


lemma depth_get_value:
  "get_value clk k c t = Inr (v, c', t') \<Longrightarrow> depth c' = depth c"
proof (induction clk k c t arbitrary: v c' t' rule: get_value.induct)
  case (1 clk k f par t)
  show ?case
  proof (cases "map_of (item_dict f) k")
    case (Some it)
    with "1.prems" show ?thesis by (cases par) auto
  next
    case None
    note miss = this
    show ?thesis
    proof (cases par)
      case None
      with miss "1.prems" show ?thesis by auto
    next
      case (Some p)
      with miss "1.prems" obtain w p' where
        g: "get_value clk k p t = Inr (w, p', t')" and c': "c' = Cache f (Some p')"
        by (auto split: sum.splits bool.splits)
      from "1.IH" [OF miss Some g] c' Some show ?thesis by simp
    qed
  qed
qed

lemma depth_remove_value:
  "remove_value k c = Inr c' \<Longrightarrow> depth c' = depth c"
proof (induction k c arbitrary: c' rule: remove_value.induct)
  case (1 k f par)
  show ?case
  proof (cases par)
    case None
    with "1.prems" show ?thesis by (auto split: sum.splits)
  next
    case (Some p)
    with "1.prems" obtain p' f' where
      r: "remove_value k p = Inr p'" and c': "c' = Cache f' (Some p')"
      by (auto split: sum.splits)
    from "1.IH" [OF Some r] c' Some show ?thesis by simp
  qed
qed

text \<open>
  \<^verbatim>\<open>put_value\<close>, \<^verbatim>\<open>trim\<close> and the second loop of \<^verbatim>\<open>trim\<close>, which call each other: a
  put trims this cache, and trimming puts each victim into the parent cache. In
  \<open>trim_keys\<close> the parent is there after \<open>remove_value\<close> whenever it was there before
  (\<open>depth_remove_value\<close>), so the branch for a missing parent is never taken.
\<close>

function put_value :: "clock \<Rightarrow> string \<Rightarrow> pyval \<Rightarrow> cache \<Rightarrow> nat \<Rightarrow> error + cache \<times> nat"
  and trim :: "clock \<Rightarrow> rat \<Rightarrow> cache \<Rightarrow> nat \<Rightarrow> error + cache \<times> nat"
  and trim_keys :: "clock \<Rightarrow> string list \<Rightarrow> cache \<Rightarrow> nat \<Rightarrow> error + cache \<times> nat"
where
  "put_value clk k v c t =
     (case (case parent_cache c of
              None \<Rightarrow> Inr None
            | Some p \<Rightarrow> (case remove_value k p of Inl e \<Rightarrow> Inl e | Inr p' \<Rightarrow> Inr (Some p'))) of
        Inl e \<Rightarrow> Inl e
      | Inr par \<Rightarrow>
         (case remove_local k (fields c) of
            Inl e \<Rightarrow> Inl e
          | Inr f \<Rightarrow>
             (case (if exceeds (size_c f + stored_size (item_store (store f) clk t k v))
                         (max_size f)
                    then trim clk (stored_size (item_store (store f) clk t k v))
                           (Cache f par) (Suc t)
                    else Inr (Cache f par, Suc t)) of
                Inl e \<Rightarrow> Inl e
              | Inr (c', t') \<Rightarrow>
                  Inr (Cache (add_item (item_store (store f) clk t k v)
                                ((fields c')\<lparr>size_c := size_c (fields c') +
                                     stored_size (item_store (store f) clk t k v)\<rparr>))
                         (parent_cache c'), t'))))"
| "trim clk extra_size c t =
     trim_keys clk
       (select_keys extra_size (max_size (fields c)) (size_c (fields c))
          (sort_key (policy (fields c)) (item_list (fields c))))
       (Cache ((fields c)\<lparr>item_list := sort_key (policy (fields c)) (item_list (fields c))\<rparr>)
          (parent_cache c)) t"
| "trim_keys clk [] c t = Inr (c, t)"
| "trim_keys clk (k # ks) c t =
     (case parent_cache c of
        Some _ \<Rightarrow>
         (case get_value clk k c t of
            Inl e \<Rightarrow> Inl e
          | Inr (v, c1, t1) \<Rightarrow>
             (case remove_value k c1 of
                Inl e \<Rightarrow> Inl e
              | Inr c2 \<Rightarrow>
                 (case truthy v of
                    Inl e \<Rightarrow> Inl e
                  | Inr True \<Rightarrow>
                     (case parent_cache c2 of
                        Some p \<Rightarrow>
                         (case put_value clk k v p t1 of
                            Inl e \<Rightarrow> Inl e
                          | Inr (p', t2) \<Rightarrow> trim_keys clk ks (Cache (fields c2) (Some p')) t2)
                      | None \<Rightarrow> trim_keys clk ks c2 t1)
                  | Inr False \<Rightarrow> trim_keys clk ks c2 t1)))
      | None \<Rightarrow>
         (case remove_value k c of
            Inl e \<Rightarrow> Inl e
          | Inr c' \<Rightarrow> trim_keys clk ks c' t))"
  by pat_completeness auto


lemma depth_Cache: "depth (Cache f par) = (case par of None \<Rightarrow> 0 | Some p \<Rightarrow> Suc (depth p))"
  by (cases par) simp_all

lemma depth_parent: "depth c = (case parent_cache c of None \<Rightarrow> 0 | Some p \<Rightarrow> Suc (depth p))"
  by (cases c) (simp add: depth_Cache)

lemma depth_parent_removed:
  "(case parent_cache c of None \<Rightarrow> Inr None
    | Some p \<Rightarrow> (case remove_value k p of Inl e \<Rightarrow> Inl e | Inr p' \<Rightarrow> Inr (Some p'))) = Inr par
   \<Longrightarrow> depth (Cache f par) = depth c"
  by (cases c) (auto simp: depth_Cache dest: depth_remove_value split: option.splits sum.splits)

lemma depth_put_trim:
  "put_value_trim_trim_keys_dom (Inl (clk, k, v, c, t)) \<Longrightarrow>
     put_value clk k v c t = Inr (c', t') \<Longrightarrow> depth c' = depth c"
  "put_value_trim_trim_keys_dom (Inr (Inl (clk, extra_size, c, t))) \<Longrightarrow>
     trim clk extra_size c t = Inr (c', t') \<Longrightarrow> depth c' = depth c"
  "put_value_trim_trim_keys_dom (Inr (Inr (clk, ks, c, t))) \<Longrightarrow>
     trim_keys clk ks c t = Inr (c', t') \<Longrightarrow> depth c' = depth c"
proof (induct arbitrary: c' t' and c' t' and c' t' rule: put_value_trim_trim_keys.pinduct)
  case (1 clk k v c t)
  from "1.prems" [unfolded put_value.psimps [OF "1.hyps"(1)]]
  obtain par f c1 where
    par: "(case parent_cache c of None \<Rightarrow> Inr None
           | Some p \<Rightarrow> (case remove_value k p of Inl e \<Rightarrow> Inl e | Inr p' \<Rightarrow> Inr (Some p'))) = Inr par"
    and f: "remove_local k (fields c) = Inr f"
    and c1: "(if exceeds (size_c f + stored_size (item_store (store f) clk t k v)) (max_size f)
              then trim clk (stored_size (item_store (store f) clk t k v)) (Cache f par) (Suc t)
              else Inr (Cache f par, Suc t)) = Inr (c1, t')"
    and c': "c' = Cache (add_item (item_store (store f) clk t k v)
                   ((fields c1)\<lparr>size_c := size_c (fields c1) +
                        stored_size (item_store (store f) clk t k v)\<rparr>)) (parent_cache c1)"
    by (auto split: sum.splits prod.splits)
  have c': "depth c' = depth c1"
    by (simp add: c' depth_Cache depth_parent [of c1])
  have "depth c1 = depth (Cache f par)"
  proof (cases "exceeds (size_c f + stored_size (item_store (store f) clk t k v)) (max_size f)")
    case True
    with c1 "1.hyps"(2) [OF par f True] show ?thesis by simp
  next
    case False
    with c1 show ?thesis by simp
  qed
  with c' depth_parent_removed [OF par] show ?case by simp
next
  case (2 clk extra_size c t)
  from "2.prems" [unfolded trim.psimps [OF "2.hyps"(1)]] "2.hyps"(2)
  show ?case by (simp add: depth_Cache depth_parent [of c])
next
  case (3 clk c t)
  then show ?case by (simp add: trim_keys.psimps)
next
  case (4 clk k ks c t)
  note run = "4.prems" [unfolded trim_keys.psimps(2) [OF "4.hyps"(1)]]
  show ?case
  proof (cases "parent_cache c")
    case None
    with run obtain b where b: "remove_value k c = Inr b" "trim_keys clk ks b t = Inr (c', t')"
      by (auto split: sum.splits)
    from "4.hyps"(2) [OF None b(1) b(2)] depth_remove_value [OF b(1)] show ?thesis by simp
  next
    case (Some x2)
    with run obtain x xa ya ba bb where
      g: "get_value clk k c t = Inr (x, xa, ya)" and r: "remove_value k xa = Inr ba"
      and tr: "truthy x = Inr bb"
      by (auto split: sum.splits)
    have d: "depth ba = depth c"
      using depth_get_value [OF g] depth_remove_value [OF r] by simp
    show ?thesis
    proof (cases bb)
      case False
      then have bF: "bb = False" by simp
      with run Some g r tr have "trim_keys clk ks ba ya = Inr (c', t')" by simp
      from "4.hyps"(6) [OF Some g refl refl r tr bF this] d show ?thesis by simp
    next
      case True
      then have bT: "bb = True" by simp
      show ?thesis
      proof (cases "parent_cache ba")
        case None
        with run Some g r tr True have "trim_keys clk ks ba ya = Inr (c', t')" by simp
        from "4.hyps"(3) [OF Some g refl refl r tr bT None this] d show ?thesis by simp
      next
        case (Some x2a)
        with run \<open>parent_cache c = Some x2\<close> g r tr True obtain xb yb where
          p: "put_value clk k x x2a ya = Inr (xb, yb)"
          and l: "trim_keys clk ks (Cache (fields ba) (Some xb)) yb = Inr (c', t')"
          by (auto split: sum.splits)
        from "4.hyps"(4) [OF \<open>parent_cache c = Some x2\<close> g refl refl r tr bT Some p]
        have "depth xb = depth x2a" .
        moreover from "4.hyps"(5) [OF \<open>parent_cache c = Some x2\<close> g refl refl r tr bT Some p refl l]
        have "depth c' = depth (Cache (fields ba) (Some xb))" .
        ultimately show ?thesis using d Some by (simp add: depth_parent [of ba])
      qed
    qed
  qed
qed

termination put_value
proof (relation "measures
    [\<lambda>x. case x of Inl (clk, k, v, c, t) \<Rightarrow> depth c
                  | Inr (Inl (clk, e, c, t)) \<Rightarrow> depth c
                  | Inr (Inr (clk, ks, c, t)) \<Rightarrow> depth c,
     \<lambda>x. case x of Inl _ \<Rightarrow> 2 | Inr (Inl _) \<Rightarrow> 1 | Inr (Inr _) \<Rightarrow> 0,
     \<lambda>x. case x of Inl _ \<Rightarrow> 0 | Inr (Inl _) \<Rightarrow> 0 | Inr (Inr (clk, ks, c, t)) \<Rightarrow> length ks]",
    goal_cases)
  case 1
  show ?case by simp
next
  case (2 clk k v c t par f)
  then show ?case by (simp add: depth_parent_removed)
next
  case (3 clk extra_size c t)
  then show ?case by (simp add: depth_Cache depth_parent [of c])
next
  case (4 clk k ks c t b)
  then show ?case by (simp add: depth_remove_value)
next
  case (5 clk k ks c t x2 b x y xa ya ba bb)
  then show ?case using depth_get_value [of clk k c t x xa ya] depth_remove_value [of k xa ba]
    by simp
next
  case (6 clk k ks c t x2 b x y xa ya ba bb x2a)
  then show ?case using depth_get_value [of clk k c t x xa ya] depth_remove_value [of k xa ba]
    by (simp add: depth_parent [of ba])
next
  case (7 clk k ks c t x2 b x y xa ya ba bb x2a bc xb yb)
  then show ?case
    using depth_get_value [of clk k c t x xa ya] depth_remove_value [of k xa ba]
      depth_put_trim(1) [of clk k x x2a ya xb yb]
    by (simp add: depth_parent [of ba] depth_Cache)
next
  case (8 clk k ks c t x2 b x y xa ya ba bb)
  then show ?case using depth_get_value [of clk k c t x xa ya] depth_remove_value [of k xa ba]
    by simp
qed

declare put_value.simps [simp del] trim.simps [simp del]


text \<open>
  \<^verbatim>\<open>clear\<close>: the parent is cleared first when \<open>clear_parent\<close> is set; then every key of
  the dictionary, in the dictionary's order, is copied to the parent (when there is one
  and \<open>clear_parent\<close> is not set) and removed with \<^verbatim>\<open>remove_value\<close>.
\<close>

fun clear_keys :: "clock \<Rightarrow> bool \<Rightarrow> string list \<Rightarrow> cache \<Rightarrow> nat \<Rightarrow> error + cache \<times> nat" where
  "clear_keys clk clear_parent [] c t = Inr (c, t)"
| "clear_keys clk clear_parent (k # ks) c t =
     (case (if parent_cache c \<noteq> None \<and> \<not> clear_parent then
              (case get_value clk k c t of
                 Inl e \<Rightarrow> Inl e
               | Inr (v, c1, t1) \<Rightarrow>
                  (case truthy v of
                     Inl e \<Rightarrow> Inl e
                   | Inr True \<Rightarrow>
                      (case parent_cache c1 of
                         Some p \<Rightarrow>
                          (case put_value clk k v p t1 of
                             Inl e \<Rightarrow> Inl e
                           | Inr (p', t2) \<Rightarrow> Inr (Cache (fields c1) (Some p'), t2))
                       | None \<Rightarrow> Inr (c1, t1))
                   | Inr False \<Rightarrow> Inr (c1, t1)))
            else Inr (c, t)) of
        Inl e \<Rightarrow> Inl e
      | Inr (c2, t2) \<Rightarrow>
         (case remove_value k c2 of
            Inl e \<Rightarrow> Inl e
          | Inr c3 \<Rightarrow> clear_keys clk clear_parent ks c3 t2))"

fun clear :: "clock \<Rightarrow> bool \<Rightarrow> cache \<Rightarrow> nat \<Rightarrow> error + cache \<times> nat" where
  "clear clk clear_parent (Cache f par) t =
     (case (case par of
              Some p \<Rightarrow>
                if clear_parent then
                  (case clear clk clear_parent p t of
                     Inl e \<Rightarrow> Inl e
                   | Inr (p', t') \<Rightarrow> Inr (Some p', t'))
                else Inr (Some p, t)
            | None \<Rightarrow> Inr (None, t)) of
        Inl e \<Rightarrow> Inl e
      | Inr (par', t') \<Rightarrow>
          clear_keys clk clear_parent (map fst (item_dict f)) (Cache f par') t')"

subsection \<open>Sequences of operations\<close>

text \<open>
  The public operations of a cache, and a run of a sequence of them on one cache by
  one thread. A run stops at the first operation that raises.
\<close>

datatype op = Get string | Put string pyval | Remove string | Trim rat | Clear bool

fun apply_op :: "clock \<Rightarrow> op \<Rightarrow> cache \<Rightarrow> nat \<Rightarrow> error + cache \<times> nat" where
  "apply_op clk (Get k) c t =
     (case get_value clk k c t of Inl e \<Rightarrow> Inl e | Inr (v, c', t') \<Rightarrow> Inr (c', t'))"
| "apply_op clk (Put k v) c t = put_value clk k v c t"
| "apply_op clk (Remove k) c t =
     (case remove_value k c of Inl e \<Rightarrow> Inl e | Inr c' \<Rightarrow> Inr (c', t))"
| "apply_op clk (Trim extra_size) c t = trim clk extra_size c t"
| "apply_op clk (Clear clear_parent) c t = clear clk clear_parent c t"

fun run :: "clock \<Rightarrow> op list \<Rightarrow> cache \<Rightarrow> nat \<Rightarrow> error + cache \<times> nat" where
  "run clk [] c t = Inr (c, t)"
| "run clk (x # xs) c t =
     (case apply_op clk x c t of Inl e \<Rightarrow> Inl e | Inr (c', t') \<Rightarrow> run clk xs c' t')"

text \<open>
  A run on the cache that the constructor returns, and what a program does with a cache
  that it constructs and passes on as a parent cache or as a tile cache: nothing, when
  the constructor raises.
\<close>

definition run_new :: "clock \<Rightarrow> op list \<Rightarrow> error + cache \<Rightarrow> nat \<Rightarrow> error + cache \<times> nat" where
  "run_new clk ops r t = (case r of Inl e \<Rightarrow> Inl e | Inr c \<Rightarrow> run clk ops c t)"

definition with_cache :: "error + cache \<Rightarrow> (cache option \<Rightarrow> error + 'a) \<Rightarrow> error + 'a" where
  "with_cache r f = (case r of Inl e \<Rightarrow> Inl e | Inr c \<Rightarrow> f (Some c))"

text \<open>The keys resident in a cache, and the sizes of its resident items.\<close>

definition resident :: "cache \<Rightarrow> string set" where
  "resident c = fst ` set (item_dict (fields c))"

definition stored_sizes :: "cache \<Rightarrow> rat list" where
  "stored_sizes c = map (\<lambda>p. stored_size (snd p)) (item_dict (fields c))"

subsection \<open>Well-formed caches\<close>

text \<open>
  The state that the operations keep: the keys of the dictionary are distinct, every
  entry holds the item of its key, the list holds exactly the items of the dictionary,
  each once, and \<open>size_c\<close> is the sum of their sizes. \<open>drop_keys K\<close> is the state
  without the items whose keys are in \<open>K\<close>.
\<close>

definition wf_fields :: "cache_fields \<Rightarrow> bool" where
  "wf_fields f \<longleftrightarrow>
     distinct (map fst (item_dict f)) \<and>
     (\<forall>p \<in> set (item_dict f). key (snd p) = fst p) \<and>
     distinct (item_list f) \<and>
     set (item_list f) = snd ` set (item_dict f) \<and>
     size_c f = sum_list (map stored_size (item_list f))"

definition drop_keys :: "string set \<Rightarrow> cache_fields \<Rightarrow> cache_fields" where
  "drop_keys K f =
     f\<lparr>item_dict := filter (\<lambda>p. fst p \<notin> K) (item_dict f),
       item_list := filter (\<lambda>i. key i \<notin> K) (item_list f),
       size_c := sum_list (map stored_size (filter (\<lambda>i. key i \<notin> K) (item_list f)))\<rparr>"


definition touch :: "clock \<Rightarrow> nat \<Rightarrow> string \<Rightarrow> item \<Rightarrow> cache_fields \<Rightarrow> cache_fields" where
  "touch clk t k it f =
     f\<lparr>item_dict := AList.update k (access clk t it) (item_dict f),
       item_list := map (\<lambda>i. if i = it then access clk t it else i) (item_list f)\<rparr>"

definition sorted_fields :: "cache_fields \<Rightarrow> cache_fields" where
  "sorted_fields f = f\<lparr>item_list := sort_key (policy f) (item_list f)\<rparr>"

definition victims :: "rat \<Rightarrow> cache_fields \<Rightarrow> string list" where
  "victims extra_size f =
     select_keys extra_size (max_size f) (size_c f) (sort_key (policy f) (item_list f))"

definition trimmed :: "rat \<Rightarrow> cache_fields \<Rightarrow> cache_fields" where
  "trimmed extra_size f = drop_keys (set (victims extra_size f)) (sorted_fields f)"

definition put_fields :: "clock \<Rightarrow> nat \<Rightarrow> string \<Rightarrow> pyval \<Rightarrow> cache_fields \<Rightarrow> cache_fields" where
  "put_fields clk t k v f0 =
     (let f = drop_keys {k} f0;
          it = item_store (store f) clk t k v;
          g = (if exceeds (size_c f + stored_size it) (max_size f)
               then trimmed (stored_size it) f else f)
      in add_item it (g\<lparr>size_c := size_c g + stored_size it\<rparr>))"

definition keys_of :: "cache_fields \<Rightarrow> string set" where
  "keys_of f = fst ` set (item_dict f)"

definition nonneg_sizes :: "cache_fields \<Rightarrow> bool" where
  "nonneg_sizes f \<longleftrightarrow> (\<forall>i \<in> set (item_list f). 0 \<le> stored_size i)"

definition fields_after :: "clock \<Rightarrow> nat \<Rightarrow> op \<Rightarrow> cache_fields \<Rightarrow> cache_fields" where
  "fields_after clk t x f =
     (case x of
        Get k \<Rightarrow> (case map_of (item_dict f) k of Some it \<Rightarrow> touch clk t k it f | None \<Rightarrow> f)
      | Put k v \<Rightarrow> put_fields clk t k v f
      | Remove k \<Rightarrow> drop_keys {k} f
      | Trim extra_size \<Rightarrow> trimmed extra_size f
      | Clear clear_parent \<Rightarrow> drop_keys (keys_of f) f)"

definition bounded_store :: "cache_fields \<Rightarrow> bool" where
  "bounded_store f \<longleftrightarrow>
     (\<forall>k v. 0 \<le> snd (store_value (store f) k v) \<and>
            \<not> exceeds (snd (store_value (store f) k v)) (max_size f))"

definition in_bounds :: "cache_fields \<Rightarrow> bool" where
  "in_bounds f \<longleftrightarrow> nonneg_sizes f \<and> \<not> exceeds (size_c f) (max_size f)"

text \<open>
  A cache and its parent caches compute with ints only: their stores report ints, and
  the sizes that they hold are ints.
\<close>

fun int_sizes :: "cache \<Rightarrow> bool" where
  "int_sizes (Cache f None) \<longleftrightarrow>
     (\<forall>k v. snd (store_value (store f) k v) \<in> \<int>) \<and> size_c f \<in> \<int> \<and>
     (\<forall>i \<in> set (item_list f). stored_size i \<in> \<int>) \<and>
     (\<forall>p \<in> set (item_dict f). stored_size (snd p) \<in> \<int>)"
| "int_sizes (Cache f (Some p)) \<longleftrightarrow>
     (\<forall>k v. snd (store_value (store f) k v) \<in> \<int>) \<and> size_c f \<in> \<int> \<and>
     (\<forall>i \<in> set (item_list f). stored_size i \<in> \<int>) \<and>
     (\<forall>p \<in> set (item_dict f). stored_size (snd p) \<in> \<int>) \<and> int_sizes p"

text \<open>
  Two clocks: one whose every reading is later than the one before, and one of a coarse
  resolution, which advances at every fourth reading.
\<close>

definition tick_clock :: clock where
  "tick_clock n = of_nat n"

definition coarse_clock :: clock where
  "coarse_clock n = of_nat (n div 4)"

definition observe ::
  "error + cache \<times> nat \<Rightarrow> error + string list \<times> rat \<times> pyfloat \<times> string list option" where
  "observe r =
     (case r of
        Inl e \<Rightarrow> Inl e
      | Inr (c, t) \<Rightarrow>
          Inr (map fst (item_dict (fields c)), size_c (fields c), max_size (fields c),
               map_option (\<lambda>p. map fst (item_dict (fields p))) (parent_cache c)))"

definition parent_keys :: "cache \<Rightarrow> string set" where
  "parent_keys c = (case parent_cache c of None \<Rightarrow> {} | Some p \<Rightarrow> resident p)"

definition wf_parent :: "cache \<Rightarrow> bool" where
  "wf_parent c = (case parent_cache c of None \<Rightarrow> True | Some p \<Rightarrow> wf_fields (fields p))"

definition same_parent :: "cache \<Rightarrow> cache \<Rightarrow> bool" where
  "same_parent c c' \<longleftrightarrow> (parent_cache c' = None) = (parent_cache c = None)"

definition disjoint_tiers :: "cache \<Rightarrow> bool" where
  "disjoint_tiers c \<longleftrightarrow> resident c \<inter> parent_keys c = {}"

definition tiers_ok :: "cache \<Rightarrow> bool" where
  "tiers_ok c \<longleftrightarrow> wf_fields (fields c) \<and> wf_parent c \<and> disjoint_tiers c"

fun fill_items :: "store \<Rightarrow> clock \<Rightarrow> nat \<Rightarrow> (string \<times> pyval) list \<Rightarrow> item list" where
  "fill_items st clk t [] = []"
| "fill_items st clk t ((k, v) # kvs) = item_store st clk t k v # fill_items st clk (Suc t) kvs"

definition puts :: "(string \<times> pyval) list \<Rightarrow> op list" where
  "puts kvs = map (\<lambda>(k, v). Put k v) kvs"

subsection \<open>image.py: tiled images\<close>

text \<open>The decimal numeral of an integer, as the format \<^verbatim>\<open>%d\<close> writes it.\<close>

fun str_nat :: "nat \<Rightarrow> string" where
  "str_nat n = (if n < 10 then [''0123456789'' ! n]
                else str_nat (n div 10) @ [''0123456789'' ! (n mod 10)])"

definition str_int :: "int \<Rightarrow> string" where
  "str_int i = (if i < 0 then CHR ''-'' # str_nat (nat (- i)) else str_nat (nat i))"

text \<open>
  \<^verbatim>\<open>AbstractTiledImage.__init__\<close>. The default of the image id is \<^verbatim>\<open>str(uuid.uuid4)\<close>:
  the function \<^verbatim>\<open>uuid4\<close> is not called, and the string is the representation of the
  function object, one and the same string \<open>str_uuid4\<close> for as long as the process runs.
  An empty \<^verbatim>\<open>image_id\<close> is false and gets the default too.
\<close>

definition AbstractTiledImage_init ::
  "string \<Rightarrow> int \<times> int \<Rightarrow> (int \<times> int) option \<Rightarrow> (int \<times> int) option \<Rightarrow> string option \<Rightarrow>
   string option \<Rightarrow> string option \<Rightarrow> (error + tiled_image) option" where
  "AbstractTiledImage_init str_uuid4 size_wh tile_size num_tiles md fmt img_id =
     and_then (case tile_size of
                 Some ts \<Rightarrow> Some (Inr (fst ts))
               | None \<Rightarrow> compute_tile_size_default (fst size_wh) None False)
       (\<lambda>tw. and_then (case tile_size of
                           Some ts \<Rightarrow> Some (Inr (snd ts))
                         | None \<Rightarrow> compute_tile_size_default (snd size_wh) None False)
          (\<lambda>th. and_then (case num_tiles of
                              Some nt \<Rightarrow> Some (Inr (fst nt))
                            | None \<Rightarrow> Some (cardinal_div_round (fst size_wh) tw))
             (\<lambda>nx. and_then (case num_tiles of
                                 Some nt \<Rightarrow> Some (Inr (snd nt))
                               | None \<Rightarrow> Some (cardinal_div_round (snd size_wh) th))
                (\<lambda>ny. Some (Inr \<lparr>width = fst size_wh, height = snd size_wh, tile_width = tw,
                                   tile_height = th, num_tiles_x = nx, num_tiles_y = ny,
                                   image_id = (case img_id of
                                                 Some s \<Rightarrow> if s \<noteq> [] then s else str_uuid4
                                               | None \<Rightarrow> str_uuid4),
                                   mode = md, format = fmt\<rparr>)))))"

text \<open>\<^verbatim>\<open>get_tile_id\<close>: \<^verbatim>\<open>'%s/%d/%d' % (self.id, tile_y, tile_x)\<close>.\<close>

definition get_tile_id :: "tiled_image \<Rightarrow> int \<Rightarrow> int \<Rightarrow> string" where
  "get_tile_id im tile_x tile_y = image_id im @ ''/'' @ str_int tile_y @ ''/'' @ str_int tile_x"

text \<open>
  \<^verbatim>\<open>OpImage.get_tile\<close>. The tile cache of the image is an object that other images
  share; its state is passed in and out (\<open>None\<close> when the image has no cache), and so
  is the count of clock readings. \<^verbatim>\<open>compute_tile\<close> is abstract in \<^verbatim>\<open>OpImage\<close>: it is a
  parameter, and since it may fetch tiles of source images through the same cache, it
  takes and returns the cache too. The last component of the result counts the calls of
  \<^verbatim>\<open>compute_tile\<close> that this call of \<^verbatim>\<open>get_tile\<close> made.
\<close>

type_synonym compute = "int \<Rightarrow> int \<Rightarrow> int \<times> int \<times> int \<times> int \<Rightarrow> cache option \<Rightarrow> nat
   \<Rightarrow> error + pyval \<times> cache option \<times> nat"

definition get_tile ::
  "clock \<Rightarrow> compute \<Rightarrow> tiled_image \<Rightarrow> int \<Rightarrow> int \<Rightarrow> cache option \<Rightarrow> nat
     \<Rightarrow> error + pyval \<times> cache option \<times> nat \<times> nat" where
  "get_tile clk compute_tile im tile_x tile_y tile_cache t =
     (case (case tile_cache of
              Some c \<Rightarrow>
               (case get_value clk (get_tile_id im tile_x tile_y) c t of
                  Inl e \<Rightarrow> Inl e
                | Inr (tile, c1, t1) \<Rightarrow> Inr (tile, Some c1, t1))
            | None \<Rightarrow> Inr (PyNone, None, t)) of
        Inl e \<Rightarrow> Inl e
      | Inr (cached, w1, t1) \<Rightarrow>
          if cached \<noteq> PyNone then Inr (cached, w1, t1, 0)
          else
            (case compute_tile tile_x tile_y
                    (tile_width im * tile_x, tile_height im * tile_y, tile_width im, tile_height im)
                    w1 t1 of
               Inl e \<Rightarrow> Inl e
             | Inr (tile, w2, t2) \<Rightarrow>
                (case w2 of
                   Some c2 \<Rightarrow>
                    (case put_value clk (get_tile_id im tile_x tile_y) tile c2 t2 of
                       Inl e \<Rightarrow> Inl e
                     | Inr (c3, t3) \<Rightarrow> Inr (tile, Some c3, t3, 1))
                 | None \<Rightarrow> Inr (tile, None, t2, 1))))"

text \<open>
  \<^verbatim>\<open>DecoratorImage.compute_tile\<close>: the tile of the source image at the same
  coordinates, passed through \<^verbatim>\<open>compute_tile_from_source_tile\<close> unless it is \<^verbatim>\<open>None\<close>.
\<close>

definition DecoratorImage_compute_tile ::
  "(int \<Rightarrow> int \<Rightarrow> cache option \<Rightarrow> nat \<Rightarrow> error + pyval \<times> cache option \<times> nat) \<Rightarrow>
   (int \<Rightarrow> int \<Rightarrow> int \<times> int \<times> int \<times> int \<Rightarrow> pyval \<Rightarrow> error + pyval) \<Rightarrow> compute" where
  "DecoratorImage_compute_tile source_get_tile compute_tile_from_source_tile
       tile_x tile_y rectangle w t =
     (case source_get_tile tile_x tile_y w t of
        Inl e \<Rightarrow> Inl e
      | Inr (source_tile, w', t') \<Rightarrow>
          if source_tile \<noteq> PyNone then
            (case compute_tile_from_source_tile tile_x tile_y rectangle source_tile of
               Inl e \<Rightarrow> Inl e
             | Inr target_tile \<Rightarrow> Inr (target_tile, w', t'))
          else Inr (PyNone, w', t'))"

text \<open>
  Sources and decorators for concrete runs: a source image whose \<^verbatim>\<open>get_tile\<close> returns
  the same value for every tile (\<^verbatim>\<open>None\<close> when it has no tile), and a decorator that
  hands the source tile on. \<open>tile_and_count\<close> projects the result of \<^verbatim>\<open>get_tile\<close> to the
  tile and the count of computations, \<open>then_get_tile\<close> makes the next call on the state
  that a call left.
\<close>

definition fixed_tile ::
  "pyval \<Rightarrow> int \<Rightarrow> int \<Rightarrow> cache option \<Rightarrow> nat \<Rightarrow> error + pyval \<times> cache option \<times> nat" where
  "fixed_tile v tile_x tile_y w t = Inr (v, w, t)"

definition same_tile :: "int \<Rightarrow> int \<Rightarrow> int \<times> int \<times> int \<times> int \<Rightarrow> pyval \<Rightarrow> error + pyval" where
  "same_tile tile_x tile_y rectangle source_tile = Inr source_tile"

definition tile_and_count ::
  "error + pyval \<times> cache option \<times> nat \<times> nat \<Rightarrow> error + pyval \<times> nat" where
  "tile_and_count r = (case r of Inl e \<Rightarrow> Inl e | Inr (tile, w, t, n) \<Rightarrow> Inr (tile, n))"

definition then_get_tile ::
  "clock \<Rightarrow> compute \<Rightarrow> tiled_image \<Rightarrow> int \<Rightarrow> int \<Rightarrow> error + pyval \<times> cache option \<times> nat \<times> nat
     \<Rightarrow> error + pyval \<times> cache option \<times> nat \<times> nat" where
  "then_get_tile clk compute_tile im tile_x tile_y r =
     (case r of
        Inl e \<Rightarrow> Inl e
      | Inr (tile, w, t, n) \<Rightarrow> get_tile clk compute_tile im tile_x tile_y w t)"


definition image_512 :: "string \<Rightarrow> tiled_image" where
  "image_512 name = \<lparr>width = 512, height = 512, tile_width = 256, tile_height = 256,
                      num_tiles_x = 2, num_tiles_y = 2, image_id = name,
                      mode = None, format = None\<rparr>"

text \<open>
  The number of elements that the slice \<^verbatim>\<open>start:stop:step\<close> selects from an axis of
  length \<open>n\<close>, for a step that is not zero: the indices are adjusted as Python's
  \<^verbatim>\<open>slice.indices\<close> does, and numpy uses the same rule for a basic slice.
\<close>

definition slice_length :: "int \<Rightarrow> int \<Rightarrow> int \<Rightarrow> int \<Rightarrow> int" where
  "slice_length n start stop step =
     (let adjust = (\<lambda>i. if i < 0 then (if i + n < 0 then (if step < 0 then - 1 else 0) else i + n)
                        else if n \<le> i then (if step < 0 then n - 1 else n) else i);
          lo = adjust start;
          hi = adjust stop
      in if step < 0 then (if hi < lo then (lo - hi - 1) div (- step) + 1 else 0)
         else (if lo < hi then (hi - lo - 1) div step + 1 else 0))"

text \<open>
  \<^verbatim>\<open>FastNdarrayDownsamplingImage.__init__\<close>. \<open>uuid4\<close> is the string of the identifier that
  this call of \<^verbatim>\<open>uuid.uuid4()\<close> returns. A negative shift count raises \<^verbatim>\<open>ValueError\<close>.
\<close>

definition FastNdarrayDownsamplingImage_init ::
  "string \<Rightarrow> string \<Rightarrow> ndarray_info \<Rightarrow> int \<times> int \<Rightarrow> int \<Rightarrow> int \<Rightarrow> (error + fast_image) option" where
  "FastNdarrayDownsamplingImage_init str_uuid4 uuid4 array tile_size z num_levels =
     (if num_levels - z - 1 < 0 then Some (Inl ValueError)
      else
        (case from_end (shape array) 1 of
           Inl e \<Rightarrow> Some (Inl e)
         | Inr source_width \<Rightarrow>
            (case from_end (shape array) 2 of
               Inl e \<Rightarrow> Some (Inl e)
             | Inr source_height \<Rightarrow>
                (case cardinal_div_round (source_width div 2 ^ nat (num_levels - z - 1))
                        (fst tile_size) of
                   Inl e \<Rightarrow> Some (Inl e)
                 | Inr nx \<Rightarrow>
                    (case cardinal_div_round (source_height div 2 ^ nat (num_levels - z - 1))
                            (snd tile_size) of
                       Inl e \<Rightarrow> Some (Inl e)
                     | Inr ny \<Rightarrow>
                        and_then
                          (AbstractTiledImage_init str_uuid4
                             (source_width div 2 ^ nat (num_levels - z - 1),
                              source_height div 2 ^ nat (num_levels - z - 1))
                             (Some tile_size) (Some (nx, ny)) (Some (dtype array)) None
                             (Some (uuid4 @ ''-L'' @ str_int z)))
                          (\<lambda>im. Some (Inr \<lparr>width = width im, height = height im,
                                   tile_width = tile_width im, tile_height = tile_height im,
                                   num_tiles_x = num_tiles_x im, num_tiles_y = num_tiles_y im,
                                   image_id = image_id im, mode = mode im, format = format im,
                                   array_shape = shape array, z_index = z,
                                   zoom = 2 ^ nat (num_levels - z - 1)\<rparr>)))))))"

text \<open>
  \<^verbatim>\<open>FastNdarrayDownsamplingImage.compute_tile\<close>. The tile is the strided slice
  \<^verbatim>\<open>self._array[..., y:y + h:zoom, x:x + w:zoom]\<close> of the array; the model returns its
  shape. \<open>actual_tile_size\<close> is the pair \<^verbatim>\<open>tile.shape[-1], tile.shape[-2]\<close>; an array of
  fewer than two dimensions cannot be indexed so (\<^verbatim>\<open>IndexError\<close>), and a step of zero
  raises \<^verbatim>\<open>ValueError\<close>.
\<close>

definition actual_tile_size :: "fast_image \<Rightarrow> int \<times> int \<times> int \<times> int \<Rightarrow> error + int \<times> int" where
  "actual_tile_size im rectangle =
     (case rectangle of (x, y, w, h) \<Rightarrow>
        (case from_end (array_shape im) 1 of
           Inl e \<Rightarrow> Inl e
         | Inr source_width \<Rightarrow>
            (case from_end (array_shape im) 2 of
               Inl e \<Rightarrow> Inl e
             | Inr source_height \<Rightarrow>
                if zoom im = 0 then Inl ValueError
                else Inr (slice_length source_width (x * zoom im) (x * zoom im + w * zoom im) (zoom im),
                          slice_length source_height (y * zoom im) (y * zoom im + h * zoom im)
                            (zoom im)))))"

definition FastNdarrayDownsamplingImage_compute_tile ::
  "fast_image \<Rightarrow> int \<Rightarrow> int \<Rightarrow> int \<times> int \<times> int \<times> int \<Rightarrow> error + int list" where
  "FastNdarrayDownsamplingImage_compute_tile im tile_x tile_y rectangle =
     (case actual_tile_size im rectangle of
        Inl e \<Rightarrow> Inl e
      | Inr (actual_width, actual_height) \<Rightarrow>
          if (tile_width im, tile_height im) = (actual_width, actual_height)
          then Inr (take (length (array_shape im) - 2) (array_shape im) @
                    [actual_height, actual_width])
          else Inl AssertionError)"

section \<open>Properties of utils.py\<close>

lemma halve_loop_2048: "halve_loop 2048 0 180 = Some (256, 3)"
  by (simp add: halve_loop.simps)

lemma halve_loop_1000: "halve_loop 1000 0 180 = Some (250, 2)"
  by (simp add: halve_loop.simps)

text \<open>
  C6, as stated: \<^verbatim>\<open>compute_tile_size(2048, 180, 512, 2)\<close> returns 512 and
  \<^verbatim>\<open>compute_tile_size(1000, 180, 512, 2, int_div=True)\<close> returns 500. Neither holds: the
  halving loop goes on as long as the half is at least \<open>tile_size_min = 180\<close>, so it
  passes 512 and 500.
\<close>

theorem compute_tile_size_S3_counterexample:
  "compute_tile_size 2048 180 512 2 None None False \<noteq> Some (Inr 512) \<and>
   compute_tile_size 1000 180 512 2 None None True \<noteq> Some (Inr 500)"
  by (simp add: compute_tile_size_def halve_loop_2048 halve_loop_1000)

text \<open>
  C6, amended: \<^verbatim>\<open>compute_tile_size(2048, 180, 512, 2)\<close> returns 256 by the
  natural-halving branch (2048, 1024, 512, 256, three halvings; the next half, 128, is
  below 180), and \<^verbatim>\<open>compute_tile_size(1000, 180, 512, 2, int_div=True)\<close> returns 250 by
  the same branch (1000, 500, 250, two halvings; the next half, 125, is below 180).
\<close>

theorem compute_tile_size_S3:
  "halve_loop 2048 0 180 = Some (256, 3) \<and>
   compute_tile_size 2048 180 512 2 None None False = Some (Inr 256) \<and>
   halve_loop 1000 0 180 = Some (250, 2) \<and>
   compute_tile_size 1000 180 512 2 None None True = Some (Inr 250)"
  by (simp add: compute_tile_size_def halve_loop_2048 halve_loop_1000)


theorem compute_tile_size_S3_witness:
  "compute_tile_size 2048 180 512 2 None None False = Some (Inr 256)"
  by (rule conjunct1 [OF conjunct2 [OF compute_tile_size_S3]])


section \<open>Properties of the pyramid layout\<close>

lemma num_levels_loop_steps:
  assumes "num_levels_loop nx ny tw th mw mh n = Some r"
  shows "\<exists>k. r = n + int k \<and>
         (mw \<le> nx * 2 ^ k * tw \<and> mh \<le> ny * 2 ^ k * th) \<and>
         (\<forall>j<k. \<not> (mw \<le> nx * 2 ^ j * tw \<and> mh \<le> ny * 2 ^ j * th))"
proof (rule num_levels_loop.raw_induct
    [where P = "\<lambda>nx ny tw th mw mh n r. \<exists>k. r = n + int k \<and>
         (mw \<le> nx * 2 ^ k * tw \<and> mh \<le> ny * 2 ^ k * th) \<and>
         (\<forall>j<k. \<not> (mw \<le> nx * 2 ^ j * tw \<and> mh \<le> ny * 2 ^ j * th))", OF _ assms])
  fix loop :: "int \<Rightarrow> int \<Rightarrow> int \<Rightarrow> int \<Rightarrow> int \<Rightarrow> int \<Rightarrow> int \<Rightarrow> int option"
    and nx ny tw th mw mh n r :: int
  assume 1: "\<And>nx ny tw th mw mh n r. loop nx ny tw th mw mh n = Some r \<Longrightarrow>
       \<exists>k. r = n + int k \<and>
         (mw \<le> nx * 2 ^ k * tw \<and> mh \<le> ny * 2 ^ k * th) \<and>
         (\<forall>j<k. \<not> (mw \<le> nx * 2 ^ j * tw \<and> mh \<le> ny * 2 ^ j * th))"
    "(if mw \<le> nx * tw \<and> mh \<le> ny * th then Some n
      else loop (nx * 2) (ny * 2) tw th mw mh (n + 1)) = Some r"
  show "\<exists>k. r = n + int k \<and>
         (mw \<le> nx * 2 ^ k * tw \<and> mh \<le> ny * 2 ^ k * th) \<and>
         (\<forall>j<k. \<not> (mw \<le> nx * 2 ^ j * tw \<and> mh \<le> ny * 2 ^ j * th))"
  proof (cases "mw \<le> nx * tw \<and> mh \<le> ny * th")
    case True
    with 1(2) have "r = n" by simp
    with True show ?thesis by (intro exI [of _ 0]) simp
  next
    case False
    with 1(2) have "loop (nx * 2) (ny * 2) tw th mw mh (n + 1) = Some r" by simp
    from 1(1) [OF this] obtain k where k: "r = n + 1 + int k"
      "mw \<le> nx * 2 * 2 ^ k * tw \<and> mh \<le> ny * 2 * 2 ^ k * th"
      "\<forall>j<k. \<not> (mw \<le> nx * 2 * 2 ^ j * tw \<and> mh \<le> ny * 2 * 2 ^ j * th)"
      by (elim exE conjE) simp
    have e: "nx * 2 ^ Suc i * tw = nx * 2 * 2 ^ i * tw" "ny * 2 ^ Suc i * th = ny * 2 * 2 ^ i * th" for i
      by simp_all
    have "\<not> (mw \<le> nx * 2 ^ j * tw \<and> mh \<le> ny * 2 ^ j * th)" if "j < Suc k" for j
    proof (cases j)
      case 0
      with False show ?thesis by simp
    next
      case (Suc i)
      with that have "i < k" by simp
      with k(3) have "\<not> (mw \<le> nx * 2 * 2 ^ i * tw \<and> mh \<le> ny * 2 * 2 ^ i * th)" by blast
      then show ?thesis unfolding Suc e .
    qed
    moreover have "r = n + int (Suc k)" using k(1) by simp
    moreover have "mw \<le> nx * 2 ^ Suc k * tw \<and> mh \<le> ny * 2 ^ Suc k * th"
      unfolding e using k(2) .
    ultimately show ?thesis by blast
  qed
qed

lemma num_levels_loop_returns:
  assumes "0 < nx" "0 < ny" "0 < tw" "0 < th"
  shows "\<exists>r. num_levels_loop nx ny tw th mw mh n = Some r"
  using assms
proof (induction "nat (max (mw - nx * tw) (mh - ny * th))" arbitrary: nx ny n rule: less_induct)
  case less
  show ?case
  proof (cases "mw \<le> nx * tw \<and> mh \<le> ny * th")
    case True
    then show ?thesis by (subst num_levels_loop.simps) simp
  next
    case False
    have p: "0 < nx * tw" "0 < ny * th" using less.prems by simp_all
    have q: "nx * 2 * tw = 2 * (nx * tw)" "ny * 2 * th = 2 * (ny * th)" by simp_all
    have "nat (max (mw - nx * 2 * tw) (mh - ny * 2 * th)) < nat (max (mw - nx * tw) (mh - ny * th))"
      unfolding q using False p by linarith
    moreover have "0 < nx * 2" "0 < ny * 2" using less.prems by simp_all
    ultimately have "\<exists>r. num_levels_loop (nx * 2) (ny * 2) tw th mw mh (n + 1) = Some r"
      using less.hyps less.prems(3,4) by blast
    then obtain r where "num_levels_loop (nx * 2) (ny * 2) tw th mw mh (n + 1) = Some r" ..
    with False show ?thesis by (subst num_levels_loop.simps) simp
  qed
qed

lemma cardinal_div_round_pos:
  assumes "0 < a" "0 < b"
  shows "\<exists>q. cardinal_div_round a b = Inr q \<and> 0 < q"
proof -
  have "b \<le> a + b - 1" using assms by simp
  then have "b div b \<le> (a + b - 1) div b" using assms(2) by (intro zdiv_mono1) simp_all
  then have "0 < (a + b - 1) div b" using assms(2) by simp
  then show ?thesis using assms(2) by (simp add: cardinal_div_round_def)
qed

lemma compute_layout_num_levels:
  assumes "0 < mw" "0 < mh" "0 < tw" "0 < th"
  shows "\<exists>nx ny n. compute_layout (Some (mw, mh)) None (Some (tw, th)) True None None =
            Some (Inr ((mw, mh), (tw, th), (nx, ny), int n)) \<and>
          1 \<le> n \<and> level_covers (nx, ny) (tw, th) (mw, mh) n \<and>
          (\<forall>m. 1 \<le> m \<and> m < n \<longrightarrow> \<not> level_covers (nx, ny) (tw, th) (mw, mh) m)"
proof -
  from cardinal_div_round_pos [OF assms(1,2)] obtain nx
    where nx: "cardinal_div_round mw mh = Inr nx" "0 < nx" by blast
  from cardinal_div_round_pos [OF assms(2,1)] obtain ny
    where ny: "cardinal_div_round mh mw = Inr ny" "0 < ny" by blast
  from num_levels_loop_returns [OF nx(2) ny(2) assms(3,4)] obtain r
    where r: "num_levels_loop nx ny tw th mw mh 1 = Some r" by blast
  from num_levels_loop_steps [OF r] obtain k where k: "r = 1 + int k"
    "mw \<le> nx * 2 ^ k * tw \<and> mh \<le> ny * 2 ^ k * th"
    "\<forall>j<k. \<not> (mw \<le> nx * 2 ^ j * tw \<and> mh \<le> ny * 2 ^ j * th)" by blast
  have "compute_layout (Some (mw, mh)) None (Some (tw, th)) True None None =
          Some (Inr ((mw, mh), (tw, th), (nx, ny), int (Suc k)))"
    using nx(1) ny(1) r k(1) by (simp add: compute_layout_def and_then_def)
  moreover have "level_covers (nx, ny) (tw, th) (mw, mh) (Suc k)"
    using k(2) by (simp add: level_covers_def)
  moreover have "\<not> level_covers (nx, ny) (tw, th) (mw, mh) m" if "1 \<le> m \<and> m < Suc k" for m
  proof -
    from that have "m - 1 < k" by arith
    with k(3) show ?thesis by (simp add: level_covers_def)
  qed
  ultimately show ?thesis by (intro exI [of _ nx] exI [of _ ny] exI [of _ "Suc k"]) simp
qed

text \<open>
  C7: \<^verbatim>\<open>compute_layout\<close> with \<^verbatim>\<open>max_size = (4096, 2048)\<close> and
  \<^verbatim>\<open>tile_size = (512, 512)\<close> returns \<^verbatim>\<open>num_level_zero_tiles = (2, 1)\<close> and
  \<^verbatim>\<open>num_levels = 3\<close>; three levels cover the image and one or two do not. In general,
  for positive image and tile sizes the call returns, and its \<^verbatim>\<open>num_levels\<close> is the least
  count \<open>n \<ge> 1\<close> for which the level-zero tile counts doubled \<open>n - 1\<close> times, multiplied
  by the tile size, reach the image width and height.
\<close>

theorem compute_layout_S4:
  "compute_layout (Some (4096, 2048)) None (Some (512, 512)) True None None =
     Some (Inr ((4096, 2048), (512, 512), (2, 1), 3)) \<and>
   level_covers (2, 1) (512, 512) (4096, 2048) 3 \<and>
   \<not> level_covers (2, 1) (512, 512) (4096, 2048) 2 \<and>
   \<not> level_covers (2, 1) (512, 512) (4096, 2048) 1 \<and>
   (\<forall>mw mh tw th. 0 < mw \<and> 0 < mh \<and> 0 < tw \<and> 0 < th \<longrightarrow>
      (\<exists>nx ny n. compute_layout (Some (mw, mh)) None (Some (tw, th)) True None None =
            Some (Inr ((mw, mh), (tw, th), (nx, ny), int n)) \<and>
          1 \<le> n \<and> level_covers (nx, ny) (tw, th) (mw, mh) n \<and>
          (\<forall>m. 1 \<le> m \<and> m < n \<longrightarrow> \<not> level_covers (nx, ny) (tw, th) (mw, mh) m)))"
proof (intro conjI allI impI)
  show "compute_layout (Some (4096, 2048)) None (Some (512, 512)) True None None =
     Some (Inr ((4096, 2048), (512, 512), (2, 1), 3))"
    by (simp add: compute_layout_def and_then_def cardinal_div_round_def num_levels_loop.simps)
  show "level_covers (2, 1) (512, 512) (4096, 2048) 3"
    by (simp add: level_covers_def)
  show "\<not> level_covers (2, 1) (512, 512) (4096, 2048) 2"
    by (simp add: level_covers_def)
  show "\<not> level_covers (2, 1) (512, 512) (4096, 2048) 1"
    by (simp add: level_covers_def)
next
  fix mw mh tw th :: int
  assume "0 < mw \<and> 0 < mh \<and> 0 < tw \<and> 0 < th"
  then show "\<exists>nx ny n. compute_layout (Some (mw, mh)) None (Some (tw, th)) True None None =
            Some (Inr ((mw, mh), (tw, th), (nx, ny), int n)) \<and>
          1 \<le> n \<and> level_covers (nx, ny) (tw, th) (mw, mh) n \<and>
          (\<forall>m. 1 \<le> m \<and> m < n \<longrightarrow> \<not> level_covers (nx, ny) (tw, th) (mw, mh) m)"
    using compute_layout_num_levels by blast
qed

theorem compute_layout_S4_witness:
  "\<exists>nx ny n. compute_layout (Some (1000, 300)) None (Some (256, 256)) True None None =
            Some (Inr ((1000, 300), (256, 256), (nx, ny), int n)) \<and>
          1 \<le> n \<and> level_covers (nx, ny) (256, 256) (1000, 300) n \<and>
          (\<forall>m. 1 \<le> m \<and> m < n \<longrightarrow> \<not> level_covers (nx, ny) (256, 256) (1000, 300) m)"
proof -
  have "(0::int) < 1000 \<and> (0::int) < 300 \<and> (0::int) < 256 \<and> (0::int) < 256" by simp
  with compute_layout_S4 show ?thesis by blast
qed


section \<open>Properties of the cache\<close>

lemma wf_fields_key_inj:
  assumes "wf_fields f" "i \<in> set (item_list f)" "j \<in> set (item_list f)" "key i = key j"
  shows "i = j"
proof -
  from assms obtain p q where p: "p \<in> set (item_dict f)" "snd p = i"
    and q: "q \<in> set (item_dict f)" "snd q = j"
    by (auto simp: wf_fields_def)
  with assms have "fst p = fst q" by (auto simp: wf_fields_def)
  moreover from assms(1) have "inj_on fst (set (item_dict f))"
    by (simp add: wf_fields_def distinct_map)
  ultimately have "p = q" using p(1) q(1) by (auto dest: inj_onD)
  with p q show ?thesis by simp
qed

lemma wf_fields_lookup:
  assumes "wf_fields f" "map_of (item_dict f) k = Some it"
  shows "key it = k" "it \<in> set (item_list f)"
proof -
  from assms(2) have m: "(k, it) \<in> set (item_dict f)" by (rule map_of_SomeD)
  with assms(1) show "key it = k" by (auto simp: wf_fields_def)
  from m assms(1) show "it \<in> set (item_list f)" by (force simp: wf_fields_def)
qed

lemma wf_fields_absent:
  assumes "wf_fields f" "map_of (item_dict f) k = None" "i \<in> set (item_list f)"
  shows "key i \<noteq> k"
proof
  assume "key i = k"
  from assms(1,3) obtain p where "p \<in> set (item_dict f)" "snd p = i"
    by (auto simp: wf_fields_def)
  with assms(1) \<open>key i = k\<close> have "k \<in> fst ` set (item_dict f)"
    by (force simp: wf_fields_def)
  with assms(2) show False by (simp add: map_of_eq_None_iff)
qed

lemma wf_drop_keys: "wf_fields f \<Longrightarrow> wf_fields (drop_keys K f)"
  unfolding wf_fields_def drop_keys_def
  by (auto simp: distinct_map_filter image_iff) force+

lemma drop_keys_drop_keys: "drop_keys K (drop_keys L f) = drop_keys (K \<union> L) f"
  by (simp add: drop_keys_def conj_commute)

lemma remove_local_wf:
  assumes "wf_fields f"
  shows "remove_local k f = Inr (drop_keys {k} f)"
proof (cases "map_of (item_dict f) k")
  case None
  have "filter (\<lambda>p. fst p \<noteq> k) (item_dict f) = item_dict f"
    using None by (auto simp: filter_id_conv map_of_eq_None_iff image_iff)
  moreover have "filter (\<lambda>i. key i \<noteq> k) (item_list f) = item_list f"
    using wf_fields_absent [OF assms None] by (auto simp: filter_id_conv)
  moreover have "size_c f = sum_list (map stored_size (item_list f))"
    using assms by (simp add: wf_fields_def)
  ultimately show ?thesis using None by (simp add: remove_local_def drop_keys_def)
next
  case (Some it)
  note l = wf_fields_lookup [OF assms Some]
  have d: "distinct (item_list f)" using assms by (simp add: wf_fields_def)
  have e: "filter (\<lambda>i. key i \<noteq> k) (item_list f) = filter (\<lambda>i. i \<noteq> it) (item_list f)"
    using wf_fields_key_inj [OF assms _ l(2)] l(1) by (intro filter_cong) auto
  have r: "remove1 it (item_list f) = filter (\<lambda>i. key i \<noteq> k) (item_list f)"
    using d e by (simp add: distinct_remove1_removeAll removeAll_filter_not_eq) (metis (mono_tags, lifting) filter_cong)
  have "sum_list (map stored_size (item_list f)) =
        stored_size it + sum_list (map stored_size (remove1 it (item_list f)))"
    using l(2) by (simp add: sum_list_map_remove1)
  then have s: "size_c f - stored_size it =
        sum_list (map stored_size (filter (\<lambda>i. key i \<noteq> k) (item_list f)))"
    using assms r by (simp add: wf_fields_def)
  have dd: "AList.delete k (item_dict f) = filter (\<lambda>p. fst p \<noteq> k) (item_dict f)"
    by (auto simp: AList.delete_eq intro: filter_cong)
  show ?thesis using Some l r s dd
    by (simp add: remove_local_def remove_item_def drop_keys_def)
qed

lemma get_value_fields:
  assumes "get_value clk k c t = Inr (v, c', t')"
  shows "fields c' = (case map_of (item_dict (fields c)) k of
                        Some it \<Rightarrow> touch clk t k it (fields c) | None \<Rightarrow> fields c)"
proof (cases c)
  case (Cache f par)
  with assms show ?thesis
    by (cases par) (auto simp: touch_def split: option.splits sum.splits bool.splits)
qed

lemma get_value_hit:
  assumes "map_of (item_dict (fields c)) k = Some it"
  shows "get_value clk k c t =
           Inr (restore_value (store (fields c)) k (stored_value it),
                Cache (touch clk t k it (fields c)) (parent_cache c), Suc t)"
  using assms by (cases c) (simp add: touch_def)

lemma get_value_parent:
  assumes "get_value clk k c t = Inr (v, c', t')"
  shows "case parent_cache c of
           None \<Rightarrow> parent_cache c' = None
         | Some p \<Rightarrow> \<exists>p'. parent_cache c' = Some p' \<and>
              (p' = p \<or> (\<exists>w. get_value clk k p t = Inr (w, p', t')))"
proof (cases c)
  case (Cache f par)
  with assms show ?thesis
    by (cases par) (auto split: option.splits sum.splits bool.splits)
qed

lemma access_fields [simp]:
  "key (access clk t it) = key it" "stored_size (access clk t it) = stored_size it"
  "stored_value (access clk t it) = stored_value it"
  "access_time (access clk t it) = clk t"
  "access_count (access clk t it) = access_count it + 1"
  by (simp_all add: access_def)

lemma access_neq [simp]: "access clk t it \<noteq> it"
proof
  assume "access clk t it = it"
  then have "access_count (access clk t it) = access_count it" by simp
  then show False by simp
qed

lemma touch_static [simp]:
  "store (touch clk t k it f) = store f" "max_size (touch clk t k it f) = max_size f"
  "policy (touch clk t k it f) = policy f" "size_c (touch clk t k it f) = size_c f"
  "capacity (touch clk t k it f) = capacity f" "threshold (touch clk t k it f) = threshold f"
  by (simp_all add: touch_def)

lemma filter_update_dropped:
  "k \<in> K \<Longrightarrow> filter (\<lambda>p. fst p \<notin> K) (AList.update k x al) = filter (\<lambda>p. fst p \<notin> K) al"
  by (induction al) auto

lemma filter_map_access:
  "key it \<in> K \<Longrightarrow>
     filter (\<lambda>i. key i \<notin> K) (map (\<lambda>i. if i = it then access clk t it else i) xs) =
     filter (\<lambda>i. key i \<notin> K) xs"
  by (induction xs) auto

lemma drop_keys_touch:
  assumes "wf_fields f" "map_of (item_dict f) k = Some it" "k \<in> K"
  shows "drop_keys K (touch clk t k it f) = drop_keys K f"
proof -
  note l = wf_fields_lookup [OF assms(1,2)]
  have "filter (\<lambda>i. key i \<notin> K) (map (\<lambda>i. if i = it then access clk t it else i) (item_list f))
        = filter (\<lambda>i. key i \<notin> K) (item_list f)"
    using l(1) assms(3) by (intro filter_map_access) simp
  then show ?thesis using assms(3)
    by (simp add: drop_keys_def touch_def filter_update_dropped)
qed

lemma wf_touch:
  assumes "wf_fields f" "map_of (item_dict f) k = Some it"
  shows "wf_fields (touch clk t k it f)"
proof -
  note l = wf_fields_lookup [OF assms]
  let ?it' = "access clk t it"
  let ?g = "\<lambda>i. if i = it then ?it' else i"
  have d: "distinct (item_list f)" and dk: "distinct (map fst (item_dict f))"
    and s: "set (item_list f) = snd ` set (item_dict f)"
    and ky: "\<forall>p\<in>set (item_dict f). key (snd p) = fst p"
    and sz: "size_c f = sum_list (map stored_size (item_list f))"
    using assms(1) by (simp_all add: wf_fields_def)
  have notin: "?it' \<notin> set (item_list f)"
  proof
    assume "?it' \<in> set (item_list f)"
    from wf_fields_key_inj [OF assms(1) this l(2)] show False by simp
  qed
  have "inj_on ?g (set (item_list f))"
    using notin by (auto simp: inj_on_def)
  then have 1: "distinct (map ?g (item_list f))" using d by (simp add: distinct_map)
  have 2: "distinct (map fst (AList.update k ?it' (item_dict f)))"
    using dk by (rule AList.distinct_update)
  have m: "map_of (AList.update k ?it' (item_dict f)) = (map_of (item_dict f))(k \<mapsto> ?it')"
    by (rule AList.update_conv')
  have 3: "set (AList.update k ?it' (item_dict f)) = insert (k, ?it') (set (item_dict f) - {(k, it)})"
  proof -
    have "set (AList.update k ?it' (item_dict f)) = Map.graph (map_of (AList.update k ?it' (item_dict f)))"
      using 2 by (simp add: graph_map_of_if_distinct_dom)
    also have "\<dots> = Map.graph ((map_of (item_dict f))(k \<mapsto> ?it'))" by (simp only: m)
    also have "\<dots> = insert (k, ?it') (Map.graph (map_of (item_dict f)) - {(k, it)})"
      using assms(2) by (auto simp: Map.graph_def split: if_splits)
    also have "Map.graph (map_of (item_dict f)) = set (item_dict f)"
      using dk by (simp add: graph_map_of_if_distinct_dom)
    finally show ?thesis .
  qed
  have 4: "\<forall>p\<in>set (AList.update k ?it' (item_dict f)). key (snd p) = fst p"
    using ky l(1) by (auto simp: 3)
  have "snd ` (set (item_dict f) - {(k, it)}) = set (item_list f) - {it}"
  proof -
    have "(k, it) \<in> set (item_dict f)" using assms(2) by (rule map_of_SomeD)
    moreover have "inj_on snd (set (item_dict f))"
    proof (rule inj_onI)
      fix p q assume pq: "p \<in> set (item_dict f)" "q \<in> set (item_dict f)" "snd p = snd q"
      from ky pq(1) have "key (snd p) = fst p" by (rule bspec)
      moreover from ky pq(2) have "key (snd q) = fst q" by (rule bspec)
      ultimately have "fst p = fst q" using pq(3) by simp
      with pq(3) show "p = q" by (simp add: prod_eqI)
    qed
    ultimately show ?thesis unfolding s by (auto simp: inj_on_def) force
  qed
  then have 5: "set (map ?g (item_list f)) = snd ` set (AList.update k ?it' (item_dict f))"
    using l(2) by (auto simp: 3 image_iff)
  have "map stored_size (map ?g (item_list f)) = map stored_size (item_list f)"
    by auto
  then have 6: "sum_list (map stored_size (map ?g (item_list f))) = sum_list (map stored_size (item_list f))"
    by (rule arg_cong)
  show ?thesis
    unfolding wf_fields_def touch_def using 1 2 4 5 6 sz by simp
qed

lemma wf_get_value:
  assumes "wf_fields (fields c)" "get_value clk k c t = Inr (v, c', t')"
  shows "wf_fields (fields c')"
  using assms wf_touch [of "fields c" k]
  by (auto simp: get_value_fields [OF assms(2)] split: option.splits)

lemma drop_keys_get_value:
  assumes "wf_fields (fields c)" "get_value clk k c t = Inr (v, c', t')" "k \<in> K"
  shows "drop_keys K (fields c') = drop_keys K (fields c)"
  using assms drop_keys_touch [of "fields c" k]
  by (auto simp: get_value_fields [OF assms(2)] split: option.splits)

lemma remove_value_fields:
  assumes "wf_fields (fields c)" "remove_value k c = Inr c'"
  shows "fields c' = drop_keys {k} (fields c)"
proof (cases c)
  case (Cache f par)
  with assms show ?thesis
    by (auto simp: remove_local_wf split: sum.splits)
qed

lemma remove_value_parent:
  assumes "remove_value k c = Inr c'"
  shows "case parent_cache c of
           None \<Rightarrow> parent_cache c' = None
         | Some p \<Rightarrow> \<exists>p'. remove_value k p = Inr p' \<and> parent_cache c' = Some p'"
proof (cases c)
  case (Cache f par)
  with assms show ?thesis
    by (cases par) (auto split: sum.splits)
qed

lemma drop_keys_empty: "wf_fields f \<Longrightarrow> drop_keys {} f = f"
  by (simp add: drop_keys_def wf_fields_def)

lemma trim_keys_fields:
  "wf_fields (fields c) \<Longrightarrow> trim_keys clk ks c t = Inr (c', t') \<Longrightarrow>
     fields c' = drop_keys (set ks) (fields c)"
proof (induction ks arbitrary: c t)
  case Nil
  then show ?case by (simp add: drop_keys_empty)
next
  case (Cons k ks)
  have "\<exists>x tx. trim_keys clk ks x tx = Inr (c', t') \<and> fields x = drop_keys {k} (fields c)"
  proof (cases "parent_cache c")
    case None
    with Cons.prems(2) obtain b where b: "remove_value k c = Inr b"
      "trim_keys clk ks b t = Inr (c', t')"
      by (auto split: sum.splits)
    from remove_value_fields [OF Cons.prems(1) b(1)] b(2) show ?thesis by blast
  next
    case (Some p)
    with Cons.prems(2) obtain v c1 t1 c2 where
      g: "get_value clk k c t = Inr (v, c1, t1)" and r: "remove_value k c1 = Inr c2"
      by (auto split: sum.splits)
    have "fields c2 = drop_keys {k} (fields c1)"
      using remove_value_fields [OF wf_get_value [OF Cons.prems(1) g] r] .
    also have "\<dots> = drop_keys {k} (fields c)"
      using drop_keys_get_value [OF Cons.prems(1) g] by simp
    finally have f2: "fields c2 = drop_keys {k} (fields c)" .
    from Cons.prems(2) Some g r have
      "(\<exists>p' t2. trim_keys clk ks (Cache (fields c2) (Some p')) t2 = Inr (c', t')) \<or>
       trim_keys clk ks c2 t1 = Inr (c', t')"
      by (auto split: sum.splits bool.splits option.splits)
    with f2 show ?thesis by auto
  qed
  then obtain x tx where x: "trim_keys clk ks x tx = Inr (c', t')"
    "fields x = drop_keys {k} (fields c)" by blast
  have "wf_fields (fields x)" using x(2) Cons.prems(1) by (simp add: wf_drop_keys)
  from Cons.IH [OF this x(1)] x(2) show ?case
    by (simp add: drop_keys_drop_keys Un_commute)
qed

lemma wf_sorted_fields: "wf_fields f \<Longrightarrow> wf_fields (sorted_fields f)"
proof -
  assume w: "wf_fields f"
  have d: "distinct (item_list f)" using w by (simp add: wf_fields_def)
  have "sum_list (map stored_size (sort_key (policy f) (item_list f))) =
             sum stored_size (set (sort_key (policy f) (item_list f)))"
    using d by (intro sum_list_distinct_conv_sum_set) simp
  also have "\<dots> = sum_list (map stored_size (item_list f))"
    using d by (simp add: sum_list_distinct_conv_sum_set)
  finally have "sum_list (map stored_size (sort_key (policy f) (item_list f))) =
             sum_list (map stored_size (item_list f))" .
  with w show ?thesis by (simp add: wf_fields_def sorted_fields_def)
qed

lemma trim_fields:
  assumes "wf_fields (fields c)" "trim clk extra_size c t = Inr (c', t')"
  shows "fields c' = trimmed extra_size (fields c)"
proof -
  let ?c = "Cache (sorted_fields (fields c)) (parent_cache c)"
  have "trim_keys clk (victims extra_size (fields c)) ?c t = Inr (c', t')"
    using assms(2) by (simp add: trim.simps victims_def sorted_fields_def)
  moreover have "wf_fields (fields ?c)" using assms(1) by (simp add: wf_sorted_fields)
  ultimately show ?thesis using trim_keys_fields [of ?c] by (simp add: trimmed_def)
qed

lemma put_value_fields:
  assumes "wf_fields (fields c)" "put_value clk k v c t = Inr (c', t')"
  shows "fields c' = put_fields clk t k v (fields c)"
proof -
  let ?f = "drop_keys {k} (fields c)"
  let ?it = "item_store (store ?f) clk t k v"
  from assms(2) obtain par c1 where
    c1: "(if exceeds (size_c ?f + stored_size ?it) (max_size ?f)
          then trim clk (stored_size ?it) (Cache ?f par) (Suc t)
          else Inr (Cache ?f par, Suc t)) = Inr (c1, t')"
    and c': "c' = Cache (add_item ?it ((fields c1)\<lparr>size_c := size_c (fields c1) + stored_size ?it\<rparr>))
                    (parent_cache c1)"
    by (auto simp: put_value.simps remove_local_wf [OF assms(1)] split: sum.splits)
  have "fields c1 = (if exceeds (size_c ?f + stored_size ?it) (max_size ?f)
                     then trimmed (stored_size ?it) ?f else ?f)"
  proof (cases "exceeds (size_c ?f + stored_size ?it) (max_size ?f)")
    case True
    with c1 have "trim clk (stored_size ?it) (Cache ?f par) (Suc t) = Inr (c1, t')" by simp
    from trim_fields [OF _ this] assms(1) True show ?thesis by (simp add: wf_drop_keys)
  next
    case False
    with c1 show ?thesis by auto
  qed
  with c' show ?thesis by (simp add: put_fields_def Let_def)
qed

lemma resident_keys_of: "resident c = keys_of (fields c)"
  by (simp add: resident_def keys_of_def)

lemma wf_item_keys: "wf_fields f \<Longrightarrow> key ` set (item_list f) = keys_of f"
  by (force simp: wf_fields_def keys_of_def image_iff)

lemma wf_distinct_keys:
  assumes "wf_fields f"
  shows "distinct (map key (item_list f))"
proof -
  have "inj_on key (set (item_list f))"
    using wf_fields_key_inj [OF assms] by (auto simp: inj_on_def)
  moreover have "distinct (item_list f)" using assms by (simp add: wf_fields_def)
  ultimately show ?thesis by (simp add: distinct_map)
qed

lemma keys_of_drop_keys: "keys_of (drop_keys K f) = keys_of f - K"
  by (auto simp: keys_of_def drop_keys_def)

lemma keys_of_sorted_fields: "keys_of (sorted_fields f) = keys_of f"
  by (simp add: keys_of_def sorted_fields_def)

lemma keys_of_touch:
  "map_of (item_dict f) k = Some it \<Longrightarrow> keys_of (touch clk t k it f) = keys_of f"
  by (auto simp: keys_of_def touch_def AList.dom_update dest: map_of_SomeD intro: rev_image_eqI)

lemma drop_keys_static [simp]:
  "store (drop_keys K f) = store f" "max_size (drop_keys K f) = max_size f"
  "policy (drop_keys K f) = policy f" "capacity (drop_keys K f) = capacity f"
  "threshold (drop_keys K f) = threshold f"
  by (simp_all add: drop_keys_def)

lemma sorted_fields_static [simp]:
  "store (sorted_fields f) = store f" "max_size (sorted_fields f) = max_size f"
  "policy (sorted_fields f) = policy f" "capacity (sorted_fields f) = capacity f"
  "threshold (sorted_fields f) = threshold f" "size_c (sorted_fields f) = size_c f"
  "item_dict (sorted_fields f) = item_dict f"
  by (simp_all add: sorted_fields_def)

lemma trimmed_static [simp]:
  "store (trimmed e f) = store f" "max_size (trimmed e f) = max_size f"
  "policy (trimmed e f) = policy f" "capacity (trimmed e f) = capacity f"
  "threshold (trimmed e f) = threshold f"
  by (simp_all add: trimmed_def)

lemma put_fields_static [simp]:
  "store (put_fields clk t k v f) = store f" "max_size (put_fields clk t k v f) = max_size f"
  "policy (put_fields clk t k v f) = policy f" "capacity (put_fields clk t k v f) = capacity f"
  "threshold (put_fields clk t k v f) = threshold f"
  by (simp_all add: put_fields_def Let_def add_item_def)

lemma item_store_fields [simp]:
  "key (item_store st clk t k v) = k"
  "stored_size (item_store st clk t k v) = snd (store_value st k v)"
  "stored_value (item_store st clk t k v) = fst (store_value st k v)"
  "access_time (item_store st clk t k v) = clk t"
  "access_count (item_store st clk t k v) = 1"
  by (simp_all add: item_store_def access_def split: prod.splits)

lemma select_keys_subset: "set (select_keys e m sz xs) \<subseteq> key ` set xs"
  by (induction xs arbitrary: sz) auto

lemma exceeds_mono: "exceeds x m \<Longrightarrow> x \<le> y \<Longrightarrow> exceeds y m"
  by (cases m) auto

lemma select_keys_none: "\<not> exceeds (sz + e) m \<Longrightarrow> select_keys e m sz xs = []"
  by (induction xs) auto

lemma select_keys_bound:
  "distinct (map key xs) \<Longrightarrow> sz = sum_list (map stored_size xs) \<Longrightarrow> \<not> exceeds e m \<Longrightarrow>
     \<not> exceeds
         (sum_list (map stored_size (filter (\<lambda>i. key i \<notin> set (select_keys e m sz xs)) xs)) + e) m"
proof (induction xs arbitrary: sz)
  case Nil
  then show ?case by simp
next
  case (Cons x xs)
  show ?case
  proof (cases "exceeds (sz + e) m")
    case True
    let ?V = "select_keys e m (sz - stored_size x) xs"
    have "key i \<noteq> key x" if "i \<in> set xs" for i
      using Cons.prems(1) that by (auto simp: image_iff)
    then have "filter (\<lambda>i. key i \<notin> insert (key x) (set ?V)) xs = filter (\<lambda>i. key i \<notin> set ?V) xs"
      by (intro filter_cong) simp_all
    moreover have "\<not> exceeds (sum_list (map stored_size (filter (\<lambda>i. key i \<notin> set ?V) xs)) + e) m"
      using Cons.prems by (intro Cons.IH) simp_all
    ultimately show ?thesis using True by simp
  next
    case False
    then have "select_keys e m sz (x # xs) = []" by (intro select_keys_none)
    with False Cons.prems(2) show ?thesis by simp
  qed
qed

lemma victims_subset: "wf_fields f \<Longrightarrow> set (victims e f) \<subseteq> keys_of f"
  using select_keys_subset [of e "max_size f" "size_c f" "sort_key (policy f) (item_list f)"]
  by (simp add: victims_def wf_item_keys [symmetric])

lemma wf_trimmed: "wf_fields f \<Longrightarrow> wf_fields (trimmed e f)"
  by (simp add: trimmed_def wf_drop_keys wf_sorted_fields)

lemma keys_of_trimmed: "keys_of (trimmed e f) = keys_of f - set (victims e f)"
  by (simp add: trimmed_def keys_of_drop_keys keys_of_sorted_fields)

lemma size_trimmed:
  assumes "wf_fields f" "\<not> exceeds e (max_size f)"
  shows "\<not> exceeds (size_c (trimmed e f) + e) (max_size f)"
proof -
  let ?xs = "sort_key (policy f) (item_list f)"
  have w: "wf_fields (sorted_fields f)" using assms(1) by (rule wf_sorted_fields)
  have "distinct (map key ?xs)"
    using wf_distinct_keys [OF w] by (simp add: sorted_fields_def)
  moreover have "size_c f = sum_list (map stored_size ?xs)"
    using w by (simp add: wf_fields_def sorted_fields_def)
  ultimately have "\<not> exceeds (sum_list (map stored_size
      (filter (\<lambda>i. key i \<notin> set (select_keys e (max_size f) (size_c f) ?xs)) ?xs)) + e) (max_size f)"
    using assms(2) by (intro select_keys_bound)
  then show ?thesis by (simp add: trimmed_def victims_def drop_keys_def sorted_fields_def)
qed

lemma update_absent: "k \<notin> fst ` set al \<Longrightarrow> AList.update k v al = al @ [(k, v)]"
  by (induction al) auto

lemma keys_of_size_c [simp]: "keys_of (g\<lparr>size_c := x\<rparr>) = keys_of g"
  by (simp add: keys_of_def)

lemma wf_add_item:
  assumes "wf_fields g" "key it \<notin> keys_of g"
  shows "wf_fields (add_item it (g\<lparr>size_c := size_c g + stored_size it\<rparr>))"
proof -
  have u: "AList.update (key it) it (item_dict g) = item_dict g @ [(key it, it)]"
    using assms(2) unfolding keys_of_def by (rule update_absent)
  have "it \<notin> set (item_list g)"
    using assms wf_item_keys [OF assms(1)] by auto
  then show ?thesis using assms unfolding wf_fields_def add_item_def keys_of_def
    by (simp add: u) 
qed

lemma keys_of_add_item: "keys_of (add_item it g) = insert (key it) (keys_of g)"
  by (auto simp: keys_of_def add_item_def AList.dom_update)

lemma wf_put_fields:
  assumes "wf_fields f"
  shows "wf_fields (put_fields clk t k v f)"
proof -
  let ?f = "drop_keys {k} f"
  let ?it = "item_store (store ?f) clk t k v"
  let ?g = "if exceeds (size_c ?f + stored_size ?it) (max_size ?f) then trimmed (stored_size ?it) ?f else ?f"
  have "wf_fields ?g" using assms by (simp add: wf_drop_keys wf_trimmed)
  moreover have "key ?it \<notin> keys_of ?g"
    by (simp add: keys_of_drop_keys keys_of_trimmed)
  ultimately have "wf_fields (add_item ?it (?g\<lparr>size_c := size_c ?g + stored_size ?it\<rparr>))"
    by (rule wf_add_item)
  then show ?thesis by (simp add: put_fields_def Let_def)
qed

lemma keys_of_put_fields:
  "keys_of (put_fields clk t k v f) =
     insert k (keys_of f - {k} -
       (if exceeds (size_c (drop_keys {k} f) + snd (store_value (store f) k v)) (max_size f)
        then set (victims (snd (store_value (store f) k v)) (drop_keys {k} f)) else {}))"
  by (simp add: put_fields_def Let_def keys_of_add_item keys_of_trimmed keys_of_drop_keys)

lemma size_put_fields:
  assumes "wf_fields f" "\<not> exceeds (snd (store_value (store f) k v)) (max_size f)"
  shows "\<not> exceeds (size_c (put_fields clk t k v f)) (max_size f)"
proof -
  let ?f = "drop_keys {k} f"
  let ?s = "snd (store_value (store f) k v)"
  have "wf_fields ?f" using assms(1) by (rule wf_drop_keys)
  from size_trimmed [OF this, of ?s] assms(2)
  have "\<not> exceeds (size_c (trimmed ?s ?f) + ?s) (max_size f)" by simp
  then show ?thesis by (simp add: put_fields_def Let_def add_item_def)
qed

lemma clear_keys_fields:
  "wf_fields (fields c) \<Longrightarrow> clear_keys clk cp ks c t = Inr (c', t') \<Longrightarrow>
     fields c' = drop_keys (set ks) (fields c)"
proof (induction ks arbitrary: c t)
  case Nil
  then show ?case by (simp add: drop_keys_empty)
next
  case (Cons k ks)
  from Cons.prems(2) obtain c2 t2 c3 where
    s: "(if parent_cache c \<noteq> None \<and> \<not> cp then
           (case get_value clk k c t of
              Inl e \<Rightarrow> Inl e
            | Inr (v, c1, t1) \<Rightarrow>
               (case truthy v of
                  Inl e \<Rightarrow> Inl e
                | Inr True \<Rightarrow>
                   (case parent_cache c1 of
                      Some p \<Rightarrow>
                       (case put_value clk k v p t1 of
                          Inl e \<Rightarrow> Inl e
                        | Inr (p', t2) \<Rightarrow> Inr (Cache (fields c1) (Some p'), t2))
                    | None \<Rightarrow> Inr (c1, t1))
                | Inr False \<Rightarrow> Inr (c1, t1)))
         else Inr (c, t)) = Inr (c2, t2)"
    and r: "remove_value k c2 = Inr c3"
    and l: "clear_keys clk cp ks c3 t2 = Inr (c', t')"
    by (auto split: sum.splits)
  have "wf_fields (fields c2) \<and> drop_keys {k} (fields c2) = drop_keys {k} (fields c)"
  proof (cases "parent_cache c \<noteq> None \<and> \<not> cp")
    case False
    with s Cons.prems(1) show ?thesis by auto
  next
    case True
    with s obtain v c1 t1 where g: "get_value clk k c t = Inr (v, c1, t1)"
      and f: "fields c2 = fields c1"
      by (auto split: sum.splits bool.splits option.splits)
    from wf_get_value [OF Cons.prems(1) g] drop_keys_get_value [OF Cons.prems(1) g, of "{k}"] f
    show ?thesis by simp
  qed
  with remove_value_fields [OF _ r] have f3: "fields c3 = drop_keys {k} (fields c)" by simp
  then have "wf_fields (fields c3)" using Cons.prems(1) by (simp add: wf_drop_keys)
  from Cons.IH [OF this l] f3 show ?case by (simp add: drop_keys_drop_keys Un_commute)
qed

lemma clear_fields:
  assumes "wf_fields (fields c)" "clear clk cp c t = Inr (c', t')"
  shows "fields c' = drop_keys (keys_of (fields c)) (fields c)"
proof (cases c)
  case (Cache f par)
  with assms(2) obtain par' t1 where
    "clear_keys clk cp (map fst (item_dict f)) (Cache f par') t1 = Inr (c', t')"
    by (auto split: sum.splits)
  from clear_keys_fields [OF _ this] assms(1) Cache show ?thesis
    by (simp add: keys_of_def)
qed

lemma apply_op_fields:
  assumes "wf_fields (fields c)" "apply_op clk x c t = Inr (c', t')"
  shows "fields c' = fields_after clk t x (fields c)"
proof (cases x)
  case (Get k)
  with assms(2) obtain v where "get_value clk k c t = Inr (v, c', t')"
    by (auto split: sum.splits)
  from get_value_fields [OF this] Get show ?thesis by (simp add: fields_after_def)
next
  case (Put k v)
  with assms put_value_fields show ?thesis by (simp add: fields_after_def)
next
  case (Remove k)
  with assms remove_value_fields show ?thesis by (auto simp: fields_after_def split: sum.splits)
next
  case (Trim e)
  with assms trim_fields show ?thesis by (simp add: fields_after_def)
next
  case (Clear cp)
  with assms clear_fields show ?thesis by (simp add: fields_after_def)
qed

lemma wf_fields_after: "wf_fields f \<Longrightarrow> wf_fields (fields_after clk t x f)"
  by (cases x)
     (auto simp: fields_after_def wf_touch wf_put_fields wf_drop_keys wf_trimmed
           split: option.splits)

lemma fields_after_store [simp]: "store (fields_after clk t x f) = store f"
  by (cases x) (simp_all add: fields_after_def split: option.splits)

lemma fields_after_max_size [simp]: "max_size (fields_after clk t x f) = max_size f"
  by (cases x) (simp_all add: fields_after_def split: option.splits)

lemma fields_after_policy [simp]: "policy (fields_after clk t x f) = policy f"
  by (cases x) (simp_all add: fields_after_def split: option.splits)

lemma sum_list_filter_le:
  fixes g :: "'a \<Rightarrow> rat"
  shows "(\<forall>x\<in>set xs. 0 \<le> g x) \<Longrightarrow> sum_list (map g (filter P xs)) \<le> sum_list (map g xs)"
  by (induction xs) (auto intro: add_increasing)

lemma nonneg_drop_keys: "nonneg_sizes f \<Longrightarrow> nonneg_sizes (drop_keys K f)"
  by (simp add: nonneg_sizes_def drop_keys_def)

lemma size_drop_keys:
  "wf_fields f \<Longrightarrow> nonneg_sizes f \<Longrightarrow> size_c (drop_keys K f) \<le> size_c f"
  using sum_list_filter_le [of "item_list f" stored_size]
  by (simp add: nonneg_sizes_def drop_keys_def wf_fields_def)

lemma in_bounds_drop_keys: "wf_fields f \<Longrightarrow> in_bounds f \<Longrightarrow> in_bounds (drop_keys K f)"
  using size_drop_keys [of f K] by (auto simp: in_bounds_def nonneg_drop_keys dest: exceeds_mono)

lemma nonneg_sorted_fields: "nonneg_sizes f \<Longrightarrow> nonneg_sizes (sorted_fields f)"
  by (simp add: nonneg_sizes_def sorted_fields_def)

lemma in_bounds_sorted_fields: "in_bounds f \<Longrightarrow> in_bounds (sorted_fields f)"
  by (simp add: in_bounds_def nonneg_sorted_fields)

lemma in_bounds_touch: "in_bounds f \<Longrightarrow> in_bounds (touch clk t k it f)"
  by (auto simp: in_bounds_def nonneg_sizes_def touch_def)

lemma in_bounds_put_fields:
  assumes "wf_fields f" "bounded_store f" "nonneg_sizes f"
  shows "in_bounds (put_fields clk t k v f)"
proof -
  have s: "0 \<le> snd (store_value (store f) k v)"
    "\<not> exceeds (snd (store_value (store f) k v)) (max_size f)"
    using assms(2) by (simp_all add: bounded_store_def)
  have "nonneg_sizes (put_fields clk t k v f)"
    using assms(3) s(1)
    by (auto simp: put_fields_def Let_def add_item_def nonneg_sizes_def trimmed_def
          drop_keys_def sorted_fields_def)
  with size_put_fields [OF assms(1) s(2)] show ?thesis by (simp add: in_bounds_def)
qed

lemma in_bounds_fields_after:
  assumes "wf_fields f" "bounded_store f" "in_bounds f"
  shows "in_bounds (fields_after clk t x f)"
proof (cases x)
  case (Get k)
  with assms(3) show ?thesis by (simp add: fields_after_def in_bounds_touch split: option.splits)
next
  case (Put k v)
  with in_bounds_put_fields [of f clk t k v] assms show ?thesis
    by (simp add: fields_after_def in_bounds_def)
next
  case (Remove k)
  with assms show ?thesis by (simp add: fields_after_def in_bounds_drop_keys)
next
  case (Trim e)
  with assms show ?thesis
    by (simp add: fields_after_def trimmed_def in_bounds_drop_keys in_bounds_sorted_fields
          wf_sorted_fields)
next
  case (Clear cp)
  with assms show ?thesis by (simp add: fields_after_def in_bounds_drop_keys)
qed

lemma bounded_store_fields_after [simp]:
  "bounded_store (fields_after clk t x f) = bounded_store f"
  by (simp add: bounded_store_def)

lemma run_invariant:
  "wf_fields (fields c) \<Longrightarrow> run clk ops c t = Inr (c', t') \<Longrightarrow>
     wf_fields (fields c') \<and> store (fields c') = store (fields c) \<and>
     max_size (fields c') = max_size (fields c) \<and>
     (bounded_store (fields c) \<and> in_bounds (fields c) \<longrightarrow> in_bounds (fields c'))"
proof (induction ops arbitrary: c t)
  case Nil
  then show ?case by simp
next
  case (Cons x xs)
  from Cons.prems(2) obtain c1 t1 where a: "apply_op clk x c t = Inr (c1, t1)"
    and r: "run clk xs c1 t1 = Inr (c', t')"
    by (auto split: sum.splits)
  note f1 = apply_op_fields [OF Cons.prems(1) a]
  have w1: "wf_fields (fields c1)" using Cons.prems(1) by (simp add: f1 wf_fields_after)
  have b1: "in_bounds (fields c1)" if "bounded_store (fields c) \<and> in_bounds (fields c)"
    using that in_bounds_fields_after [of "fields c" clk t x] Cons.prems(1) by (simp add: f1)
  have s1: "store (fields c1) = store (fields c)" "max_size (fields c1) = max_size (fields c)"
    "bounded_store (fields c1) = bounded_store (fields c)"
    by (simp_all add: f1)
  from Cons.IH [OF w1 r] b1 show ?case unfolding s1 by blast
qed

lemma wf_stored_sizes:
  assumes "wf_fields (fields c)"
  shows "size_c (fields c) = sum_list (stored_sizes c)"
proof -
  let ?f = "fields c"
  have d: "distinct (map snd (item_dict ?f))"
  proof -
    have "inj_on snd (set (item_dict ?f))"
    proof (rule inj_onI)
      fix p q assume pq: "p \<in> set (item_dict ?f)" "q \<in> set (item_dict ?f)" "snd p = snd q"
      from assms have ky: "\<forall>p\<in>set (item_dict ?f). key (snd p) = fst p"
        by (simp add: wf_fields_def)
      from ky pq(1) have "key (snd p) = fst p" by (rule bspec)
      moreover from ky pq(2) have "key (snd q) = fst q" by (rule bspec)
      ultimately have "fst p = fst q" using pq(3) by simp
      with pq(3) show "p = q" by (simp add: prod_eqI)
    qed
    moreover have "distinct (item_dict ?f)"
      using assms by (simp add: wf_fields_def distinct_map)
    ultimately show ?thesis by (simp add: distinct_map)
  qed
  have "sum_list (stored_sizes c) = sum_list (map stored_size (map snd (item_dict ?f)))"
    by (simp add: stored_sizes_def o_def)
  also have "\<dots> = sum stored_size (set (map snd (item_dict ?f)))"
    using d by (rule sum_list_distinct_conv_sum_set)
  also have "set (map snd (item_dict ?f)) = set (item_list ?f)"
    using assms by (simp add: wf_fields_def)
  also have "sum stored_size (set (item_list ?f)) = sum_list (map stored_size (item_list ?f))"
    using assms by (simp add: wf_fields_def sum_list_distinct_conv_sum_set)
  finally show ?thesis using assms by (simp add: wf_fields_def)
qed

subsection \<open>The float product\<close>

lemma floor_log2_bounds:
  "1 \<le> n \<Longrightarrow> 2 ^ floor_log2 n \<le> n \<and> n < 2 ^ Suc (floor_log2 n)"
proof (induction n rule: floor_log2.induct)
  case (1 n)
  show ?case
  proof (cases "n < 2")
    case True
    with "1.prems" have "n = 1" by simp
    then show ?thesis by (simp add: floor_log2.simps)
  next
    case False
    then have h: "1 \<le> n div 2" by simp
    from "1.IH" [OF False h] have
      a: "2 ^ floor_log2 (n div 2) \<le> n div 2" and b: "n div 2 < 2 ^ Suc (floor_log2 (n div 2))"
      by simp_all
    have e: "floor_log2 n = Suc (floor_log2 (n div 2))"
      using False by (subst floor_log2.simps) simp
    from a have "2 * 2 ^ floor_log2 (n div 2) \<le> n" by linarith
    moreover from b have "n < 2 * 2 ^ Suc (floor_log2 (n div 2))" by linarith
    ultimately show ?thesis by (simp add: e)
  qed
qed

lemma round_half_even_int: "round_half_even (of_int k) = k"
  by (simp add: round_half_even_def)

lemma binary_exponent_int:
  assumes "1 \<le> n"
  shows "binary_exponent (of_int n) = int (floor_log2 n)"
proof -
  have "floor_log2 1 = 0" by (simp add: floor_log2.simps)
  moreover have "(2::rat) ^ floor_log2 n \<le> of_int n"
  proof -
    from floor_log2_bounds [OF assms] have "(2::int) ^ floor_log2 n \<le> n" by simp
    then have "of_int ((2::int) ^ floor_log2 n) \<le> (of_int n :: rat)" by (simp only: of_int_le_iff)
    then show ?thesis by simp
  qed
  ultimately show ?thesis
    by (simp add: binary_exponent_def quotient_of_rat_of_int pow2_def)
qed

lemma round_double_int:
  assumes "0 \<le> n" "n \<le> 2 ^ 53"
  shows "round_double (of_int n) = Finite (of_int n)"
proof (cases "n = 0")
  case True
  then show ?thesis by (simp add: round_double_def)
next
  case False
  with assms have n: "1 \<le> n" by simp
  let ?L = "floor_log2 n"
  note b = floor_log2_bounds [OF n]
  have L: "?L \<le> 53"
  proof (rule ccontr)
    assume "\<not> ?L \<le> 53"
    then have "54 \<le> ?L" by simp
    then have "(2::int) ^ 54 \<le> 2 ^ ?L" by (intro power_increasing) simp_all
    with b assms(2) show False by simp
  qed
  have e: "binary_exponent (of_int n) = int ?L"
    using n by (rule binary_exponent_int)
  have q: "max (int ?L - 52) (- 1074) = int ?L - 52" by simp
  have "\<exists>k. (of_int n :: rat) / pow2 (int ?L - 52) = of_int k \<and>
             of_int k * pow2 (int ?L - 52) = (of_int n :: rat)"
  proof (cases "?L = 53")
    case True
    with b assms(2) have "n = 2 ^ 53" by simp
    then show ?thesis using True by (intro exI [of _ "2 ^ 52"]) (simp add: pow2_def)
  next
    case False
    with L have l: "?L \<le> 52" by simp
    show ?thesis
    proof (cases "?L = 52")
      case True
      then show ?thesis by (intro exI [of _ n]) (simp add: pow2_def)
    next
      case False
      with l have "int ?L - 52 < 0" by simp
      then have "pow2 (int ?L - 52) = 1 / 2 ^ nat (52 - int ?L)" by (simp add: pow2_def)
      then show ?thesis by (intro exI [of _ "n * 2 ^ nat (52 - int ?L)"]) simp
    qed
  qed
  then obtain k where k: "(of_int n :: rat) / pow2 (int ?L - 52) = of_int k"
    "of_int k * pow2 (int ?L - 52) = (of_int n :: rat)" by blast
  have a: "\<bar>of_int n :: rat\<bar> = of_int n" using n by simp
  have pos: "(0::rat) < of_int n" using n by simp
  have nz: "(of_int n :: rat) \<noteq> 0" using n by simp
  have small: "\<not> (1024 \<le> int ?L \<or> int ?L = 1023 \<and> k = 2 ^ 53)" using L by simp
  show ?thesis
    unfolding round_double_def Let_def a e q k(1) round_half_even_int
    using nz pos small k(2) by simp
qed

text \<open>
  An int capacity up to \<open>2 ^ 53\<close> is a float, and its product with the threshold 1.0 is
  the capacity itself.
\<close>

lemma new_cache_exact:
  assumes "0 \<le> n" "n \<le> 2 ^ 53"
  shows "\<exists>c0. new_cache st n 1 pol par = Inr c0 \<and> max_size (fields c0) = Finite (of_int n)"
  using assms round_double_int [OF assms]
  by (simp add: new_cache_def float_of_int_def)

text \<open>
  The product is rounded: the float 0.58 is a little below 58/100, and with capacity 50
  \<open>max_size\<close> is \<open>28.999999999999996\<close>, below 29; with capacity 10 and threshold 0.7 it
  is exactly 7.
\<close>

lemma max_size_is_rounded:
  "(case round_double (58 / 100) of
      Finite thr \<Rightarrow>
        (case new_cache MemoryCacheStore 50 thr POLICY_LRU None of
           Inr c \<Rightarrow> max_size (fields c) = Finite (8162774324609023 / 2 ^ 48) \<and>
                    exceeds 29 (max_size (fields c))
         | Inl e \<Rightarrow> False)
    | _ \<Rightarrow> False) \<and>
   (case round_double (7 / 10) of
      Finite thr \<Rightarrow>
        (case new_cache MemoryCacheStore 10 thr POLICY_LRU None of
           Inr c \<Rightarrow> max_size (fields c) = Finite 7
         | Inl e \<Rightarrow> False)
    | _ \<Rightarrow> False)"
  by code_simp

subsection \<open>The size of a cache\<close>

lemma new_cache_fields:
  assumes "new_cache st cap thr pol par = Inr c"
  shows "store (fields c) = st" "policy (fields c) = pol" "size_c (fields c) = 0"
    "item_dict (fields c) = []" "item_list (fields c) = []" "parent_cache c = par"
    "\<exists>fc. float_of_int cap = Inr fc \<and> max_size (fields c) = round_double (fc * thr)"
  using assms by (auto simp: new_cache_def split: sum.splits)

lemma wf_new_cache: "new_cache st cap thr pol par = Inr c \<Longrightarrow> wf_fields (fields c)"
  by (auto simp: new_cache_def wf_fields_def split: sum.splits)

lemma observe_Inr:
  "observe r = Inr x \<Longrightarrow> \<exists>c t. r = Inr (c, t)"
  by (cases r) (auto simp: observe_def)

lemma run_new_Inr:
  "run_new clk ops r t = Inr x \<Longrightarrow> \<exists>c0. r = Inr c0 \<and> run clk ops c0 t = Inr x"
  by (cases r) (auto simp: run_new_def)

lemma with_cache_Inr:
  "with_cache r f = Inr x \<Longrightarrow> \<exists>c. r = Inr c \<and> f (Some c) = Inr x"
  by (cases r) (auto simp: with_cache_def)

lemma exceeds_nonneg: "0 \<le> x \<Longrightarrow> \<not> exceeds x m \<Longrightarrow> \<not> exceeds 0 m"
  using exceeds_mono [of 0 m x] by blast

text \<open>
  C1, as stated: after any completed sequence of operations the reported size equals the
  sum of the stored sizes of the resident items and does not exceed
  \<open>max_size = capacity * threshold\<close>. The bound fails: \<^verbatim>\<open>put_value\<close> admits every item,
  also one whose size is above \<open>max_size\<close>. With the default store (every size is 1),
  capacity 1 and the default threshold 0.75, one put leaves the size 1 above the maximal
  size 0.75.
\<close>

theorem cache_size_counterexample:
  "observe (run_new tick_clock [Put ''a'' (PyInt 1)]
              (new_cache MemoryCacheStore 1 (3 / 4) POLICY_LRU None) 0) =
     Inr ([''a''], 1, Finite (3 / 4), None) \<and> exceeds 1 (Finite (3 / 4))"
  by code_simp

text \<open>
  C1, amended: take a new cache whose store, and the stores and the contents of whose
  parent caches, report their sizes as ints, and any sequence of \<^verbatim>\<open>put_value\<close>,
  \<^verbatim>\<open>remove_value\<close>, \<^verbatim>\<open>get_value\<close>, \<^verbatim>\<open>trim\<close> (with an int \<open>extra_size\<close>) and \<^verbatim>\<open>clear\<close>
  operations, run by one thread. When the sequence completes, the reported size equals
  the sum of the stored sizes of the resident items; \<open>max_size\<close> is the float that
  \<^verbatim>\<open>capacity * threshold\<close> evaluates to; and the size does not exceed \<open>max_size\<close> provided
  that every size the store reports is non-negative and at most \<open>max_size\<close>. The
  hypotheses on ints delimit the runs in which Python adds and subtracts the sizes exactly,
  as the model does.
\<close>

theorem cache_size_invariant:
  assumes "new_cache st cap thr pol par = Inr c0"
    and "int_sizes c0"
    and "\<forall>e. Trim e \<in> set ops \<longrightarrow> e \<in> \<int>"
    and "run clk ops c0 t = Inr (c, t')"
  shows "size_c (fields c) = sum_list (stored_sizes c) \<and>
         (\<exists>fc. float_of_int cap = Inr fc \<and> max_size (fields c) = round_double (fc * thr)) \<and>
         ((\<forall>k v. 0 \<le> snd (store_value st k v) \<and>
                 \<not> exceeds (snd (store_value st k v)) (max_size (fields c))) \<longrightarrow>
            \<not> exceeds (size_c (fields c)) (max_size (fields c)))"
proof -
  note n = new_cache_fields [OF assms(1)]
  note inv = run_invariant [OF wf_new_cache [OF assms(1)] assms(4)]
  have m: "max_size (fields c) = max_size (fields c0)" using inv by simp
  have "\<not> exceeds (size_c (fields c)) (max_size (fields c))"
    if b: "\<forall>k v. 0 \<le> snd (store_value st k v) \<and>
                 \<not> exceeds (snd (store_value st k v)) (max_size (fields c))"
  proof -
    from b have "\<not> exceeds 0 (max_size (fields c0))"
      unfolding m using exceeds_nonneg by blast
    then have "in_bounds (fields c0)"
      by (simp add: in_bounds_def nonneg_sizes_def n)
    moreover have "bounded_store (fields c0)"
      using b by (simp add: bounded_store_def n m)
    ultimately have "in_bounds (fields c)" using inv by blast
    then show ?thesis by (simp add: in_bounds_def)
  qed
  moreover have "size_c (fields c) = sum_list (stored_sizes c)"
    using wf_stored_sizes [of c] inv by blast
  ultimately show ?thesis using n(7) m by simp
qed

theorem cache_size_invariant_witness:
  "\<exists>c0 c t. new_cache MemoryCacheStore 3 1 POLICY_LRU None = Inr c0 \<and> int_sizes c0 \<and>
         run tick_clock [Put ''a'' (PyInt 1), Put ''b'' (PyInt 2), Put ''c'' (PyInt 3),
                         Get ''a'', Put ''d'' (PyInt 4)] c0 0 = Inr (c, t) \<and>
         size_c (fields c) = sum_list (stored_sizes c) \<and>
         max_size (fields c) = Finite 3 \<and> \<not> exceeds (size_c (fields c)) (max_size (fields c))"
proof -
  let ?ops = "[Put ''a'' (PyInt 1), Put ''b'' (PyInt 2), Put ''c'' (PyInt 3),
               Get ''a'', Put ''d'' (PyInt 4)]"
  have o: "observe (run_new tick_clock ?ops (new_cache MemoryCacheStore 3 1 POLICY_LRU None) 0) =
        Inr ([''a'', ''c'', ''d''], 3, Finite 3, None)"
    by code_simp
  then obtain c0 c t where n: "new_cache MemoryCacheStore 3 1 POLICY_LRU None = Inr c0"
    and r: "run tick_clock ?ops c0 0 = Inr (c, t)"
    using observe_Inr run_new_Inr by blast
  from o n r have m: "max_size (fields c) = Finite 3"
    by (simp add: run_new_def observe_def)
  have i: "int_sizes c0"
    using new_cache_fields [OF n] by (cases c0) (simp add: MemoryCacheStore_def)
  have e: "\<forall>e. Trim e \<in> set ?ops \<longrightarrow> e \<in> \<int>" by simp
  have "\<forall>k v. 0 \<le> snd (store_value MemoryCacheStore k v) \<and>
              \<not> exceeds (snd (store_value MemoryCacheStore k v)) (max_size (fields c))"
    by (simp add: MemoryCacheStore_def m)
  with cache_size_invariant [OF n i e r] n i r m show ?thesis by auto
qed

lemma resident_get_value:
  assumes "get_value clk k c t = Inr (v, c', t')"
  shows "resident c' = resident c"
  using keys_of_touch [of "fields c" k]
  by (auto simp: resident_keys_of get_value_fields [OF assms] split: option.splits)

lemma parent_get_value:
  assumes "wf_parent c" "get_value clk k c t = Inr (v, c', t')"
  shows "wf_parent c' \<and> parent_keys c' = parent_keys c \<and> same_parent c c'"
proof (cases "parent_cache c")
  case None
  with get_value_parent [OF assms(2)] show ?thesis
    by (simp add: wf_parent_def parent_keys_def same_parent_def)
next
  case (Some p)
  with get_value_parent [OF assms(2)] obtain p' where p': "parent_cache c' = Some p'"
    "p' = p \<or> (\<exists>w. get_value clk k p t = Inr (w, p', t'))" by auto
  from p'(2) have "wf_fields (fields p') \<and> resident p' = resident p"
  proof
    assume "p' = p"
    with assms(1) Some show ?thesis by (simp add: wf_parent_def)
  next
    assume "\<exists>w. get_value clk k p t = Inr (w, p', t')"
    then obtain w where g: "get_value clk k p t = Inr (w, p', t')" ..
    from assms(1) Some have "wf_fields (fields p)" by (simp add: wf_parent_def)
    from wf_get_value [OF this g] resident_get_value [OF g] show ?thesis by simp
  qed
  with Some p'(1) show ?thesis by (simp add: wf_parent_def parent_keys_def same_parent_def)
qed

lemma parent_remove_value:
  assumes "wf_parent c" "remove_value k c = Inr c'"
  shows "wf_parent c' \<and> parent_keys c' = parent_keys c - {k} \<and> same_parent c c'"
proof (cases "parent_cache c")
  case None
  with remove_value_parent [OF assms(2)] show ?thesis
    by (simp add: wf_parent_def parent_keys_def same_parent_def)
next
  case (Some p)
  with remove_value_parent [OF assms(2)] obtain p' where p': "remove_value k p = Inr p'"
    "parent_cache c' = Some p'" by auto
  from assms(1) Some have w: "wf_fields (fields p)" by (simp add: wf_parent_def)
  from remove_value_fields [OF w p'(1)] w Some p'(2) show ?thesis
    by (simp add: wf_parent_def parent_keys_def same_parent_def resident_keys_of
          keys_of_drop_keys wf_drop_keys)
qed

lemma resident_remove_value:
  "wf_fields (fields c) \<Longrightarrow> remove_value k c = Inr c' \<Longrightarrow> resident c' = resident c - {k}"
  by (simp add: remove_value_fields resident_keys_of keys_of_drop_keys)

lemma resident_put_value:
  assumes "wf_fields (fields p)" "put_value clk k v p t = Inr (p', t')"
  shows "wf_fields (fields p')" "k \<in> resident p'" "resident p' \<subseteq> insert k (resident p)"
  using assms(1)
  by (auto simp: put_value_fields [OF assms] resident_keys_of wf_put_fields keys_of_put_fields
        split: if_splits)

lemma same_parent_trans: "same_parent a b \<Longrightarrow> same_parent b c \<Longrightarrow> same_parent a c"
  by (simp add: same_parent_def)

lemma same_parent_refl [simp]: "same_parent c c"
  by (simp add: same_parent_def)

lemma parent_put_victim:
  assumes "wf_parent c2" "parent_cache c2 = Some p" "put_value clk k v p t = Inr (p', t')"
  shows "wf_parent (Cache (fields c2) (Some p')) \<and>
         parent_keys (Cache (fields c2) (Some p')) \<subseteq> insert k (parent_keys c2) \<and>
         same_parent c2 (Cache (fields c2) (Some p'))"
proof -
  from assms(1,2) have "wf_fields (fields p)" by (simp add: wf_parent_def)
  from resident_put_value [OF this assms(3)] assms(2) show ?thesis
    by (simp add: wf_parent_def parent_keys_def same_parent_def)
qed

lemma parent_trim_keys:
  "wf_fields (fields c) \<Longrightarrow> wf_parent c \<Longrightarrow> trim_keys clk ks c t = Inr (c', t') \<Longrightarrow>
     wf_parent c' \<and> parent_keys c' \<subseteq> parent_keys c \<union> set ks \<and> same_parent c c'"
proof (induction ks arbitrary: c t)
  case Nil
  then show ?case by simp
next
  case (Cons k ks)
  have "\<exists>x tx. trim_keys clk ks x tx = Inr (c', t') \<and> wf_fields (fields x) \<and> wf_parent x \<and>
          parent_keys x \<subseteq> insert k (parent_keys c) \<and> same_parent c x"
  proof (cases "parent_cache c")
    case None
    with Cons.prems(3) obtain b where b: "remove_value k c = Inr b"
      "trim_keys clk ks b t = Inr (c', t')"
      by (auto split: sum.splits)
    from remove_value_fields [OF Cons.prems(1) b(1)] Cons.prems(1)
    have "wf_fields (fields b)" by (simp add: wf_drop_keys)
    with parent_remove_value [OF Cons.prems(2) b(1)] b(2) show ?thesis by blast
  next
    case (Some p)
    with Cons.prems(3) obtain v c1 t1 c2 where
      g: "get_value clk k c t = Inr (v, c1, t1)" and r: "remove_value k c1 = Inr c2"
      by (auto split: sum.splits)
    note w1 = wf_get_value [OF Cons.prems(1) g]
    note p1 = parent_get_value [OF Cons.prems(2) g]
    from remove_value_fields [OF w1 r] w1 have w2: "wf_fields (fields c2)"
      by (simp add: wf_drop_keys)
    from p1 have "wf_parent c1" by simp
    note p2 = parent_remove_value [OF this r]
    from p1 p2 have s2: "wf_parent c2" "parent_keys c2 \<subseteq> parent_keys c" "same_parent c c2"
      by (auto intro: same_parent_trans)
    from Cons.prems(3) Some g r have
      "(\<exists>q p' t2. parent_cache c2 = Some q \<and> put_value clk k v q t1 = Inr (p', t2) \<and>
            trim_keys clk ks (Cache (fields c2) (Some p')) t2 = Inr (c', t')) \<or>
       trim_keys clk ks c2 t1 = Inr (c', t')"
      by (auto split: sum.splits bool.splits option.splits)
    then show ?thesis
    proof
      assume "trim_keys clk ks c2 t1 = Inr (c', t')"
      with w2 s2 show ?thesis by blast
    next
      assume "\<exists>q p' t2. parent_cache c2 = Some q \<and> put_value clk k v q t1 = Inr (p', t2) \<and>
            trim_keys clk ks (Cache (fields c2) (Some p')) t2 = Inr (c', t')"
      then obtain q p' t2 where q: "parent_cache c2 = Some q"
        "put_value clk k v q t1 = Inr (p', t2)"
        "trim_keys clk ks (Cache (fields c2) (Some p')) t2 = Inr (c', t')" by blast
      from parent_put_victim [OF s2(1) q(1,2)] s2(2,3) w2
      have "wf_fields (fields (Cache (fields c2) (Some p')))"
        "wf_parent (Cache (fields c2) (Some p'))"
        "parent_keys (Cache (fields c2) (Some p')) \<subseteq> insert k (parent_keys c)"
        "same_parent c (Cache (fields c2) (Some p'))"
        by (auto intro: same_parent_trans)
      with q(3) show ?thesis by blast
    qed
  qed
  then obtain x tx where x: "trim_keys clk ks x tx = Inr (c', t')" "wf_fields (fields x)"
    "wf_parent x" "parent_keys x \<subseteq> insert k (parent_keys c)" "same_parent c x" by blast
  from Cons.IH [OF x(2,3,1)] x(4,5) show ?case
    by (auto intro: same_parent_trans)
qed

lemma parent_trim:
  assumes "wf_fields (fields c)" "wf_parent c" "trim clk e c t = Inr (c', t')"
  shows "wf_parent c' \<and> parent_keys c' \<subseteq> parent_keys c \<union> set (victims e (fields c)) \<and>
         same_parent c c'"
proof -
  let ?c = "Cache (sorted_fields (fields c)) (parent_cache c)"
  have "trim_keys clk (victims e (fields c)) ?c t = Inr (c', t')"
    using assms(3) by (simp add: trim.simps victims_def sorted_fields_def)
  moreover have "wf_fields (fields ?c)" using assms(1) by (simp add: wf_sorted_fields)
  moreover have "wf_parent ?c" using assms(2) by (simp add: wf_parent_def)
  ultimately have "wf_parent c' \<and> parent_keys c' \<subseteq> parent_keys ?c \<union> set (victims e (fields c)) \<and>
         same_parent ?c c'"
    by (rule parent_trim_keys [rotated 2])
  then show ?thesis by (simp add: parent_keys_def same_parent_def)
qed

lemma parent_removed:
  assumes "wf_parent c"
    "(case parent_cache c of None \<Rightarrow> Inr None
      | Some p \<Rightarrow> (case remove_value k p of Inl e \<Rightarrow> Inl e | Inr p' \<Rightarrow> Inr (Some p'))) = Inr par"
  shows "wf_parent (Cache f par) \<and> parent_keys (Cache f par) = parent_keys c - {k} \<and>
         same_parent c (Cache f par)"
proof (cases "parent_cache c")
  case None
  with assms(2) show ?thesis by (simp add: wf_parent_def parent_keys_def same_parent_def)
next
  case (Some p)
  with assms(2) obtain p' where p': "remove_value k p = Inr p'" "par = Some p'"
    by (auto split: sum.splits)
  from assms(1) Some have w: "wf_fields (fields p)" by (simp add: wf_parent_def)
  from remove_value_fields [OF w p'(1)] w Some p'(2) show ?thesis
    by (simp add: wf_parent_def parent_keys_def same_parent_def resident_keys_of
          keys_of_drop_keys wf_drop_keys)
qed

lemma parent_put_value:
  assumes "wf_fields (fields c)" "wf_parent c" "disjoint_tiers c"
    "put_value clk k v c t = Inr (c', t')"
  shows "wf_parent c' \<and> same_parent c c' \<and> disjoint_tiers c'"
proof -
  let ?f = "drop_keys {k} (fields c)"
  let ?it = "item_store (store ?f) clk t k v"
  let ?s = "stored_size ?it"
  from assms(4) obtain par c1 where
    par: "(case parent_cache c of None \<Rightarrow> Inr None
           | Some p \<Rightarrow> (case remove_value k p of Inl e \<Rightarrow> Inl e | Inr p' \<Rightarrow> Inr (Some p'))) = Inr par"
    and c1: "(if exceeds (size_c ?f + ?s) (max_size ?f)
          then trim clk ?s (Cache ?f par) (Suc t)
          else Inr (Cache ?f par, Suc t)) = Inr (c1, t')"
    and c': "c' = Cache (add_item ?it ((fields c1)\<lparr>size_c := size_c (fields c1) + ?s\<rparr>))
                    (parent_cache c1)"
    by (auto simp: put_value.simps remove_local_wf [OF assms(1)] split: sum.splits)
  let ?c0 = "Cache ?f par"
  note p0 = parent_removed [OF assms(2) par, of ?f]
  have w0: "wf_fields (fields ?c0)" using assms(1) by (simp add: wf_drop_keys)
  define V where "V = (if exceeds (size_c ?f + ?s) (max_size ?f) then set (victims ?s ?f) else {})"
  have p1: "wf_parent c1 \<and> parent_keys c1 \<subseteq> parent_keys ?c0 \<union> V \<and> same_parent ?c0 c1"
  proof (cases "exceeds (size_c ?f + ?s) (max_size ?f)")
    case True
    with c1 have "trim clk ?s ?c0 (Suc t) = Inr (c1, t')" by simp
    from parent_trim [OF w0 _ this] p0 True show ?thesis by (simp add: V_def)
  next
    case False
    with c1 p0 show ?thesis by (auto simp: V_def)
  qed
  have V: "V \<subseteq> keys_of (fields c) - {k}"
    using victims_subset [OF w0 [simplified], of ?s] by (auto simp: V_def keys_of_drop_keys)
  have r': "resident c' = insert k (keys_of (fields c) - {k} - V)"
    using put_value_fields [OF assms(1,4)]
    by (simp add: resident_keys_of keys_of_put_fields V_def)
  have pk: "parent_keys c' = parent_keys c1" "wf_parent c' = wf_parent c1"
    "same_parent c1 c'"
    by (simp_all add: c' parent_keys_def wf_parent_def same_parent_def)
  have "parent_keys c' \<subseteq> (parent_keys c - {k}) \<union> V" using p1 p0 pk by auto
  with r' V assms(3) have "disjoint_tiers c'"
    by (auto simp: disjoint_tiers_def resident_keys_of)
  moreover have "same_parent c c'" using p0 p1 pk(3) by (blast intro: same_parent_trans)
  ultimately show ?thesis using p1 pk by simp
qed

lemma parent_clear_keys:
  "wf_fields (fields c) \<Longrightarrow> wf_parent c \<Longrightarrow> clear_keys clk cp ks c t = Inr (c', t') \<Longrightarrow>
     wf_parent c' \<and> parent_keys c' \<subseteq> parent_keys c - set ks \<and> same_parent c c'"
proof (induction ks arbitrary: c t)
  case Nil
  then show ?case by simp
next
  case (Cons k ks)
  from Cons.prems(3) obtain c2 t2 c3 where
    s: "(if parent_cache c \<noteq> None \<and> \<not> cp then
           (case get_value clk k c t of
              Inl e \<Rightarrow> Inl e
            | Inr (v, c1, t1) \<Rightarrow>
               (case truthy v of
                  Inl e \<Rightarrow> Inl e
                | Inr True \<Rightarrow>
                   (case parent_cache c1 of
                      Some p \<Rightarrow>
                       (case put_value clk k v p t1 of
                          Inl e \<Rightarrow> Inl e
                        | Inr (p', t2) \<Rightarrow> Inr (Cache (fields c1) (Some p'), t2))
                    | None \<Rightarrow> Inr (c1, t1))
                | Inr False \<Rightarrow> Inr (c1, t1)))
         else Inr (c, t)) = Inr (c2, t2)"
    and r: "remove_value k c2 = Inr c3"
    and l: "clear_keys clk cp ks c3 t2 = Inr (c', t')"
    by (auto split: sum.splits)
  have 2: "wf_fields (fields c2) \<and> wf_parent c2 \<and> parent_keys c2 \<subseteq> insert k (parent_keys c) \<and>
           same_parent c c2"
  proof (cases "parent_cache c \<noteq> None \<and> \<not> cp")
    case False
    with s Cons.prems(1,2) show ?thesis by auto
  next
    case True
    with s obtain v c1 t1 where g: "get_value clk k c t = Inr (v, c1, t1)"
      and alt: "(\<exists>q p'. parent_cache c1 = Some q \<and> put_value clk k v q t1 = Inr (p', t2) \<and>
                   c2 = Cache (fields c1) (Some p')) \<or> c2 = c1"
      by (auto split: sum.splits bool.splits option.splits)
    note w1 = wf_get_value [OF Cons.prems(1) g]
    note p1 = parent_get_value [OF Cons.prems(2) g]
    from alt show ?thesis
    proof
      assume "c2 = c1"
      with w1 p1 show ?thesis by auto
    next
      assume "\<exists>q p'. parent_cache c1 = Some q \<and> put_value clk k v q t1 = Inr (p', t2) \<and>
                   c2 = Cache (fields c1) (Some p')"
      then obtain q p' where q: "parent_cache c1 = Some q"
        "put_value clk k v q t1 = Inr (p', t2)" "c2 = Cache (fields c1) (Some p')" by blast
      from p1 have "wf_parent c1" by simp
      from parent_put_victim [OF this q(1,2)] p1 w1 q(3) show ?thesis
        by (auto intro: same_parent_trans)
    qed
  qed
  then have w2: "wf_fields (fields c2)" and wp2: "wf_parent c2" by simp_all
  from remove_value_fields [OF w2 r] w2 have w3: "wf_fields (fields c3)"
    by (simp add: wf_drop_keys)
  note p3 = parent_remove_value [OF wp2 r]
  then have wp3: "wf_parent c3" by simp
  from Cons.IH [OF w3 wp3 l] p3 2 show ?case
    by (auto intro: same_parent_trans)
qed

lemma parent_clear:
  assumes "wf_fields (fields c)" "wf_parent c" "clear clk cp c t = Inr (c', t')"
  shows "wf_parent c' \<and> parent_keys c' \<subseteq> parent_keys c - resident c \<and> same_parent c c'"
proof (cases c)
  case (Cache f par)
  with assms(3) obtain par' t1 where
    par': "(case par of
              Some p \<Rightarrow>
                if cp then
                  (case clear clk cp p t of
                     Inl e \<Rightarrow> Inl e
                   | Inr (p', t') \<Rightarrow> Inr (Some p', t'))
                else Inr (Some p, t)
            | None \<Rightarrow> Inr (None, t)) = Inr (par', t1)"
    and l: "clear_keys clk cp (map fst (item_dict f)) (Cache f par') t1 = Inr (c', t')"
    by (auto split: sum.splits)
  let ?c0 = "Cache f par'"
  have 0: "wf_parent ?c0 \<and> parent_keys ?c0 \<subseteq> parent_keys c \<and> same_parent c ?c0"
  proof (cases par)
    case None
    with par' Cache show ?thesis by (simp add: wf_parent_def parent_keys_def same_parent_def)
  next
    case (Some p)
    from assms(2) Cache Some have w: "wf_fields (fields p)" by (simp add: wf_parent_def)
    show ?thesis
    proof (cases cp)
      case False
      with par' Some have "par' = Some p" by simp
      with Some Cache w show ?thesis
        by (simp add: wf_parent_def parent_keys_def same_parent_def)
    next
      case True
      with par' Some obtain p' where p': "clear clk cp p t = Inr (p', t1)" "par' = Some p'"
        by (auto split: sum.splits)
      from clear_fields [OF w p'(1)] w Cache Some p'(2) show ?thesis
        by (simp add: wf_parent_def parent_keys_def same_parent_def resident_keys_of
              keys_of_drop_keys wf_drop_keys)
    qed
  qed
  have "wf_fields (fields ?c0)" using assms(1) Cache by simp
  from parent_clear_keys [OF this _ l] 0 Cache show ?thesis
    by (auto simp: resident_def intro: same_parent_trans)
qed

lemma apply_op_tiers:
  assumes "tiers_ok c" "apply_op clk x c t = Inr (c', t')"
  shows "tiers_ok c' \<and> same_parent c c'"
proof -
  from assms(1) have w: "wf_fields (fields c)" and wp: "wf_parent c" and d: "disjoint_tiers c"
    by (simp_all add: tiers_ok_def)
  note f' = apply_op_fields [OF w assms(2)]
  have w': "wf_fields (fields c')" using w by (simp add: f' wf_fields_after)
  show ?thesis
  proof (cases x)
    case (Get k)
    with assms(2) obtain v where g: "get_value clk k c t = Inr (v, c', t')"
      by (auto split: sum.splits)
    from parent_get_value [OF wp g] resident_get_value [OF g] d w' show ?thesis
      by (simp add: tiers_ok_def disjoint_tiers_def)
  next
    case (Put k v)
    with assms(2) have "put_value clk k v c t = Inr (c', t')" by simp
    from parent_put_value [OF w wp d this] w' show ?thesis by (simp add: tiers_ok_def)
  next
    case (Remove k)
    with assms(2) have r: "remove_value k c = Inr c'" by (auto split: sum.splits)
    from parent_remove_value [OF wp r] resident_remove_value [OF w r] d w' show ?thesis
      by (auto simp: tiers_ok_def disjoint_tiers_def)
  next
    case (Trim e)
    with assms(2) have r: "trim clk e c t = Inr (c', t')" by simp
    have "resident c' = resident c - set (victims e (fields c))"
      using trim_fields [OF w r] by (simp add: resident_keys_of keys_of_trimmed)
    with parent_trim [OF w wp r] d w' show ?thesis
      by (auto simp: tiers_ok_def disjoint_tiers_def)
  next
    case (Clear cp)
    with assms(2) have r: "clear clk cp c t = Inr (c', t')" by simp
    have "resident c' = {}"
      using clear_fields [OF w r] by (simp add: resident_keys_of keys_of_drop_keys)
    with parent_clear [OF w wp r] w' show ?thesis
      by (simp add: tiers_ok_def disjoint_tiers_def)
  qed
qed

lemma run_tiers:
  "tiers_ok c \<Longrightarrow> run clk ops c t = Inr (c', t') \<Longrightarrow> tiers_ok c' \<and> same_parent c c'"
proof (induction ops arbitrary: c t)
  case Nil
  then show ?case by simp
next
  case (Cons x xs)
  from Cons.prems(2) obtain c1 t1 where a: "apply_op clk x c t = Inr (c1, t1)"
    and r: "run clk xs c1 t1 = Inr (c', t')"
    by (auto split: sum.splits)
  note 1 = apply_op_tiers [OF Cons.prems(1) a]
  then have "tiers_ok c1" by simp
  from Cons.IH [OF this r] 1 show ?case by (blast intro: same_parent_trans)
qed

lemma tiers_ok_new_cache:
  assumes "wf_fields (fields p)" and "new_cache st cap thr pol (Some p) = Inr c0"
  shows "tiers_ok c0" "parent_cache c0 = Some p"
  using assms(1) wf_new_cache [OF assms(2)] new_cache_fields [OF assms(2)]
  by (simp_all add: tiers_ok_def wf_parent_def disjoint_tiers_def resident_def parent_keys_def)

lemma two_tiers_Inr:
  assumes "run_new clk ops (with_cache (new_cache st1 cap1 thr1 pol1 par)
             (new_cache st2 cap2 thr2 pol2)) t = Inr x"
  shows "\<exists>p c0. new_cache st1 cap1 thr1 pol1 par = Inr p \<and>
           new_cache st2 cap2 thr2 pol2 (Some p) = Inr c0 \<and> run clk ops c0 t = Inr x"
proof -
  from run_new_Inr [OF assms] obtain c0 where
    c0: "with_cache (new_cache st1 cap1 thr1 pol1 par) (new_cache st2 cap2 thr2 pol2) = Inr c0"
    and r: "run clk ops c0 t = Inr x" by blast
  from with_cache_Inr [OF c0] r show ?thesis by blast
qed

text \<open>
  C2: for a cache constructed with a parent cache (itself a well-formed cache, as every
  cache that the constructor and the operations produce is), after every completed
  sequence of public operations on the child (\<^verbatim>\<open>put_value\<close>, \<^verbatim>\<open>remove_value\<close>,
  \<^verbatim>\<open>trim\<close>, \<^verbatim>\<open>clear\<close>, and \<^verbatim>\<open>get_value\<close> when it returns) no key is resident in both
  the child and the parent.
\<close>

theorem tiers_disjoint:
  assumes "wf_fields (fields p)"
    and "new_cache st cap thr pol (Some p) = Inr c0"
    and "run clk ops c0 t = Inr (c, t')"
  shows "\<exists>p'. parent_cache c = Some p' \<and> resident c \<inter> resident p' = {}"
proof -
  note t = tiers_ok_new_cache [OF assms(1,2)]
  from run_tiers [OF t(1) assms(3)]
  have "disjoint_tiers c" "parent_cache c \<noteq> None"
    using t(2) by (simp_all add: tiers_ok_def same_parent_def)
  then show ?thesis by (auto simp: disjoint_tiers_def parent_keys_def)
qed

theorem tiers_disjoint_witness:
  "\<exists>c t p'. run_new tick_clock [Put ''a'' (PyInt 1), Put ''b'' (PyInt 2), Put ''c'' (PyInt 3)]
       (with_cache (new_cache MemoryCacheStore 4 1 POLICY_LRU None)
          (new_cache MemoryCacheStore 2 1 POLICY_LRU)) 0 = Inr (c, t) \<and>
     observe (Inr (c, t)) = Inr ([''b'', ''c''], 2, Finite 2, Some [''a'']) \<and>
     parent_cache c = Some p' \<and> resident c \<inter> resident p' = {}"
proof -
  let ?r = "run_new tick_clock [Put ''a'' (PyInt 1), Put ''b'' (PyInt 2), Put ''c'' (PyInt 3)]
       (with_cache (new_cache MemoryCacheStore 4 1 POLICY_LRU None)
          (new_cache MemoryCacheStore 2 1 POLICY_LRU)) 0"
  have o: "observe ?r = Inr ([''b'', ''c''], 2, Finite 2, Some [''a''])"
    by code_simp
  then obtain c t where r: "?r = Inr (c, t)" using observe_Inr by blast
  from two_tiers_Inr [OF r] obtain p c0 where
    p: "new_cache MemoryCacheStore 4 1 POLICY_LRU None = Inr p"
    and n: "new_cache MemoryCacheStore 2 1 POLICY_LRU (Some p) = Inr c0"
    and r0: "run tick_clock [Put ''a'' (PyInt 1), Put ''b'' (PyInt 2), Put ''c'' (PyInt 3)] c0 0 = Inr (c, t)"
    by blast
  from tiers_disjoint [OF wf_new_cache [OF p] n r0] o r show ?thesis by auto
qed

text \<open>
  C3 says that \<^verbatim>\<open>get_value\<close> on a key that is resident in the parent only returns the
  value stored in the parent. The code does not: \<^verbatim>\<open>get_value\<close> of the parent returns the
  value, the child takes it for an item and calls \<^verbatim>\<open>restore\<close> on it, which raises
  \<^verbatim>\<open>AttributeError\<close> for every value that is true. What the code does:
\<close>

theorem get_value_from_parent_raises:
  assumes "k \<notin> resident c" and "parent_cache c = Some p"
    and "map_of (item_dict (fields p)) k = Some it"
    and "truthy (restore_value (store (fields p)) k (stored_value it)) = Inr True"
  shows "get_value clk k c t = Inl AttributeError"
proof (cases c)
  case (Cache f par)
  with assms(1) have "map_of (item_dict f) k = None"
    by (simp add: resident_def map_of_eq_None_iff)
  with Cache assms(2,4) get_value_hit [OF assms(3), of clk t] show ?thesis by simp
qed

theorem get_value_from_parent_raises_witness:
  "\<exists>c t. run_new tick_clock [Put ''a'' (PyInt 1), Put ''b'' (PyInt 2), Put ''c'' (PyInt 3)]
       (with_cache (new_cache MemoryCacheStore 4 1 POLICY_LRU None)
          (new_cache MemoryCacheStore 2 1 POLICY_LRU)) 0 = Inr (c, t) \<and>
     observe (Inr (c, t)) = Inr ([''b'', ''c''], 2, Finite 2, Some [''a'']) \<and>
     get_value tick_clock ''a'' c t = Inl AttributeError"
proof -
  let ?r = "run_new tick_clock [Put ''a'' (PyInt 1), Put ''b'' (PyInt 2), Put ''c'' (PyInt 3)]
       (with_cache (new_cache MemoryCacheStore 4 1 POLICY_LRU None)
          (new_cache MemoryCacheStore 2 1 POLICY_LRU)) 0"
  have o: "observe ?r = Inr ([''b'', ''c''], 2, Finite 2, Some [''a''])"
    by code_simp
  have h: "case ?r of
             Inl e \<Rightarrow> False
           | Inr (c, t) \<Rightarrow> ''a'' \<notin> resident c \<and>
               (case parent_cache c of
                  None \<Rightarrow> False
                | Some p \<Rightarrow>
                   (case map_of (item_dict (fields p)) ''a'' of
                      None \<Rightarrow> False
                    | Some it \<Rightarrow>
                        truthy (restore_value (store (fields p)) ''a'' (stored_value it)) =
                          Inr True))"
    by code_simp
  from o obtain c t where r: "?r = Inr (c, t)" using observe_Inr by blast
  with h obtain p it where "''a'' \<notin> resident c" "parent_cache c = Some p"
    "map_of (item_dict (fields p)) ''a'' = Some it"
    "truthy (restore_value (store (fields p)) ''a'' (stored_value it)) = Inr True"
    by (auto split: option.splits)
  from get_value_from_parent_raises [OF this] o r show ?thesis by auto
qed

text \<open>
  C4 says that \<^verbatim>\<open>clear(clear_parent=False)\<close> leaves the values of the child's keys in the
  parent. The code does not: after \<^verbatim>\<open>put_value\<close> has copied a key to the parent,
  \<^verbatim>\<open>remove_value\<close> removes the key from the parent first and then from the child. What
  the code does: the child is empty afterwards, and no key that was resident in the child
  is resident in the parent.
\<close>

theorem clear_removes_from_parent:
  assumes "wf_fields (fields c)" and "wf_parent c"
    and "clear clk False c t = Inr (c', t')"
  shows "resident c' = {} \<and> parent_keys c' \<inter> resident c = {}"
proof -
  have "resident c' = {}"
    using clear_fields [OF assms(1,3)] by (simp add: resident_keys_of keys_of_drop_keys)
  with parent_clear [OF assms] show ?thesis by auto
qed

theorem clear_removes_from_parent_witness:
  "\<exists>c t c' t'. run_new tick_clock [Put ''a'' (PyInt 1), Put ''b'' (PyInt 2)]
       (with_cache (new_cache MemoryCacheStore 4 1 POLICY_LRU None)
          (new_cache MemoryCacheStore 2 1 POLICY_LRU)) 0 = Inr (c, t) \<and>
     observe (Inr (c, t)) = Inr ([''a'', ''b''], 2, Finite 2, Some []) \<and>
     clear tick_clock False c t = Inr (c', t') \<and>
     observe (Inr (c', t')) = Inr ([], 0, Finite 2, Some []) \<and>
     resident c' = {} \<and> parent_keys c' \<inter> resident c = {}"
proof -
  let ?r = "run_new tick_clock [Put ''a'' (PyInt 1), Put ''b'' (PyInt 2)]
       (with_cache (new_cache MemoryCacheStore 4 1 POLICY_LRU None)
          (new_cache MemoryCacheStore 2 1 POLICY_LRU)) 0"
  have o: "observe ?r = Inr ([''a'', ''b''], 2, Finite 2, Some [])"
    by code_simp
  have o': "observe (case ?r of Inl e \<Rightarrow> Inl e | Inr (c, t) \<Rightarrow> clear tick_clock False c t) =
              Inr ([], 0, Finite 2, Some [])"
    by code_simp
  from o obtain c t where r: "?r = Inr (c, t)" using observe_Inr by blast
  with o' obtain c' t' where r': "clear tick_clock False c t = Inr (c', t')"
    using observe_Inr by fastforce
  from two_tiers_Inr [OF r] obtain p c0 where
    p: "new_cache MemoryCacheStore 4 1 POLICY_LRU None = Inr p"
    and n: "new_cache MemoryCacheStore 2 1 POLICY_LRU (Some p) = Inr c0"
    and r0: "run tick_clock [Put ''a'' (PyInt 1), Put ''b'' (PyInt 2)] c0 0 = Inr (c, t)"
    by blast
  have "tiers_ok c0" using wf_new_cache [OF p] n by (rule tiers_ok_new_cache)
  from run_tiers [OF this r0] have "wf_fields (fields c)" "wf_parent c"
    by (simp_all add: tiers_ok_def)
  from clear_removes_from_parent [OF this r'] o o' r r' show ?thesis by auto
qed

lemma trim_keys_no_parent:
  "wf_fields (fields c) \<Longrightarrow> parent_cache c = None \<Longrightarrow>
     trim_keys clk ks c t = Inr (Cache (drop_keys (set ks) (fields c)) None, t)"
proof (induction ks arbitrary: c)
  case Nil
  then show ?case by (cases c) (simp add: drop_keys_empty)
next
  case (Cons k ks)
  have r: "remove_value k c = Inr (Cache (drop_keys {k} (fields c)) None)"
    using Cons.prems by (cases c) (simp add: remove_local_wf)
  have "trim_keys clk ks (Cache (drop_keys {k} (fields c)) None) t =
          Inr (Cache (drop_keys (set ks) (drop_keys {k} (fields c))) None, t)"
    using Cons.IH [of "Cache (drop_keys {k} (fields c)) None"] Cons.prems(1)
    by (simp add: wf_drop_keys)
  with r Cons.prems(2) show ?case by (simp add: drop_keys_drop_keys Un_commute)
qed

lemma trim_no_parent:
  assumes "wf_fields (fields c)" "parent_cache c = None"
  shows "trim clk e c t = Inr (Cache (trimmed e (fields c)) None, t)"
proof -
  let ?c = "Cache (sorted_fields (fields c)) None"
  have "trim clk e c t = trim_keys clk (victims e (fields c)) ?c t"
    using assms(2) by (simp add: trim.simps victims_def sorted_fields_def)
  also have "\<dots> = Inr (Cache (drop_keys (set (victims e (fields c))) (fields ?c)) None, t)"
    by (rule trim_keys_no_parent) (simp_all add: assms wf_sorted_fields)
  finally show ?thesis by (simp add: trimmed_def)
qed

lemma put_value_no_parent:
  assumes "wf_fields (fields c)" "parent_cache c = None"
  shows "put_value clk k v c t = Inr (Cache (put_fields clk t k v (fields c)) None, Suc t)"
proof -
  let ?f = "drop_keys {k} (fields c)"
  let ?s = "stored_size (item_store (store ?f) clk t k v)"
  have "trim clk ?s (Cache ?f None) (Suc t) = Inr (Cache (trimmed ?s ?f) None, Suc t)"
    using trim_no_parent [of "Cache ?f None"] assms(1) by (simp add: wf_drop_keys)
  then show ?thesis using assms
    by (simp add: put_value.simps remove_local_wf put_fields_def Let_def)
qed

lemma get_value_no_parent:
  assumes "parent_cache c = None"
  shows "\<exists>v. get_value clk k c t =
           Inr (v, Cache (fields_after clk t (Get k) (fields c)) None,
                case map_of (item_dict (fields c)) k of None \<Rightarrow> t | Some it \<Rightarrow> Suc t)"
  using assms by (cases c) (auto simp: fields_after_def touch_def split: option.splits)

lemma drop_keys_absent:
  assumes "wf_fields f" "K \<inter> keys_of f = {}"
  shows "drop_keys K f = f"
proof -
  have "filter (\<lambda>p. fst p \<notin> K) (item_dict f) = item_dict f"
    using assms(2) by (auto simp: filter_id_conv keys_of_def)
  moreover have "filter (\<lambda>i. key i \<notin> K) (item_list f) = item_list f"
    using assms(2) wf_item_keys [OF assms(1)] by (auto simp: filter_id_conv)
  ultimately show ?thesis using assms(1) by (simp add: drop_keys_def wf_fields_def)
qed

lemma insort_key_last:
  "(\<forall>y\<in>set ys. f y < f x) \<Longrightarrow> insort_key f x ys = ys @ [x]"
  by (induction ys) auto

lemma sort_key_rotate:
  fixes f :: "'a \<Rightarrow> rat"
  assumes "sorted (map f ys)" "\<forall>y\<in>set ys. f y < f x"
  shows "sort_key f (x # ys) = ys @ [x]"
  using assms by (simp add: sort_key_id_if_sorted insort_key_last)

lemma run_append:
  "run clk (xs @ ys) c t =
     (case run clk xs c t of Inl e \<Rightarrow> Inl e | Inr (c', t') \<Rightarrow> run clk ys c' t')"
  by (induction xs arbitrary: c t) (auto split: sum.splits)

lemma fill_items_keys: "map key (fill_items st clk t kvs) = map fst kvs"
  by (induction st clk t kvs rule: fill_items.induct) simp_all

lemma fill_items_times:
  "map access_time (fill_items st clk t kvs) = map clk [t..<t + length kvs]"
proof (induction st clk t kvs rule: fill_items.induct)
  case (1 st clk t)
  then show ?case by simp
next
  case (2 st clk t k v kvs)
  have "[t..<t + length ((k, v) # kvs)] = t # [Suc t..<Suc t + length kvs]"
    by (subst upt_rec) simp
  with 2 show ?case by simp
qed

lemma fill_run:
  assumes "\<forall>k v. snd (store_value st k v) = s" "0 \<le> s"
  shows "wf_fields f \<Longrightarrow> store f = st \<Longrightarrow> distinct (map fst kvs) \<Longrightarrow>
     set (map fst kvs) \<inter> keys_of f = {} \<Longrightarrow>
     \<not> exceeds (size_c f + of_nat (length kvs) * s) (max_size f) \<Longrightarrow>
     run clk (puts kvs) (Cache f None) t =
       Inr (Cache (f\<lparr>item_dict := item_dict f @ map (\<lambda>it. (key it, it)) (fill_items st clk t kvs),
                     item_list := item_list f @ fill_items st clk t kvs,
                     size_c := size_c f + of_nat (length kvs) * s\<rparr>) None,
            t + length kvs)"
proof (induction kvs arbitrary: f t)
  case Nil
  then show ?case by (simp add: puts_def)
next
  case (Cons kv kvs)
  obtain k v where kv: "kv = (k, v)" by (cases kv)
  let ?it = "item_store st clk t k v"
  let ?f1 = "add_item ?it (f\<lparr>size_c := size_c f + s\<rparr>)"
  have absent: "k \<notin> keys_of f" using Cons.prems(4) kv by auto
  have d: "drop_keys {k} f = f" using Cons.prems(1) absent by (intro drop_keys_absent) simp_all
  have "0 \<le> of_nat (length kvs) * s" using assms(2) by simp
  then have "size_c f + s \<le> size_c f + of_nat (length (kv # kvs)) * s"
    by (simp add: distrib_right)
  with Cons.prems(5) have fits: "\<not> exceeds (size_c f + s) (max_size f)"
    using exceeds_mono by blast
  have pf: "put_fields clk t k v f = ?f1"
    using fits assms(1) Cons.prems(2) by (simp add: put_fields_def Let_def d)
  have step: "put_value clk k v (Cache f None) t = Inr (Cache ?f1 None, Suc t)"
    using put_value_no_parent [of "Cache f None" clk k v t] Cons.prems(1) by (simp add: pf)
  have w1: "wf_fields ?f1"
    using wf_add_item [of f ?it] Cons.prems(1) absent assms(1) by simp
  have k1: "keys_of ?f1 = insert k (keys_of f)"
    by (simp add: keys_of_add_item)
  have u: "item_dict ?f1 = item_dict f @ [(k, ?it)]"
    using absent by (simp add: add_item_def update_absent keys_of_def)
  have "run clk (puts kvs) (Cache ?f1 None) (Suc t) =
       Inr (Cache (?f1\<lparr>item_dict := item_dict ?f1 @ map (\<lambda>it. (key it, it)) (fill_items st clk (Suc t) kvs),
                     item_list := item_list ?f1 @ fill_items st clk (Suc t) kvs,
                     size_c := size_c ?f1 + of_nat (length kvs) * s\<rparr>) None,
            Suc t + length kvs)"
  proof (rule Cons.IH [OF w1])
    show "store ?f1 = st" using Cons.prems(2) by (simp add: add_item_def)
    show "distinct (map fst kvs)" using Cons.prems(3) by simp
    show "set (map fst kvs) \<inter> keys_of ?f1 = {}"
      using Cons.prems(3,4) kv by (auto simp: k1)
    have "size_c ?f1 + of_nat (length kvs) * s = size_c f + of_nat (length (kv # kvs)) * s"
      by (simp add: add_item_def algebra_simps)
    moreover have "max_size ?f1 = max_size f" by (simp add: add_item_def)
    ultimately show "\<not> exceeds (size_c ?f1 + of_nat (length kvs) * s) (max_size ?f1)"
      using Cons.prems(5) by (simp only: not_False_eq_True)
  qed
  then show ?case using step kv u
    by (simp add: puts_def add_item_def distrib_right add.assoc)
qed

lemma sorted_clock:
  fixes clk :: clock
  assumes "strict_mono clk"
  shows "sorted (map clk [a..<b])"
  using assms by (auto simp: sorted_iff_nth_mono strict_mono_less_eq)

lemma lru_victims:
  assumes "strict_mono clk"
    and sz: "\<forall>k v. snd (store_value st k v) = s" and "0 < s"
    and its: "its = fill_items st clk t1 ((k1, v1) # rest)"
    and late: "t1 + length ((k1, v1) # rest) \<le> tn"
    and it0: "access_time it0' = clk tn"
  shows "select_keys s (Finite m) m (sort_key POLICY_LRU (it0' # its)) = [k1]"
proof -
  have times: "map access_time its = map clk [t1..<t1 + length ((k1, v1) # rest)]"
    unfolding its by (rule fill_items_times)
  have lru: "map POLICY_LRU its = map access_time its"
    by (simp add: POLICY_LRU_def)
  have "sorted (map POLICY_LRU its)"
    unfolding lru times using assms(1) by (rule sorted_clock)
  moreover have "\<forall>y\<in>set its. POLICY_LRU y < POLICY_LRU it0'"
  proof
    fix y assume "y \<in> set its"
    then have "access_time y \<in> set (map access_time its)" by simp
    then obtain i where "access_time y = clk i" "i < t1 + length ((k1, v1) # rest)"
      unfolding times by auto
    with late it0 assms(1) show "POLICY_LRU y < POLICY_LRU it0'"
      by (simp add: POLICY_LRU_def strict_mono_less)
  qed
  ultimately have srt: "sort_key POLICY_LRU (it0' # its) = its @ [it0']"
    by (rule sort_key_rotate)
  obtain tl where tl: "its = item_store st clk t1 k1 v1 # tl"
    unfolding its by simp
  have z: "select_keys s (Finite m) (m - s) (tl @ [it0']) = []"
    by (rule select_keys_none) simp
  have e: "sort_key POLICY_LRU (it0' # its) = item_store st clk t1 k1 v1 # (tl @ [it0'])"
    using srt unfolding tl by (simp only: append_Cons)
  show ?thesis unfolding e using \<open>0 < s\<close> sz z by simp
qed

text \<open>
  The eviction for any capacity and threshold whose product \<open>max_size\<close> is the size of the
  keys that are put.
\<close>

lemma lru_eviction_at_max_size:
  assumes "strict_mono clk"
    and "\<forall>k v. snd (store_value st k v) = of_int s" and "0 < s"
    and "kvs = (k0, v0) # (k1, v1) # rest"
    and "distinct (map fst kvs)" and "k \<notin> set (map fst kvs)"
    and "new_cache st cap thr POLICY_LRU None = Inr c0"
    and "max_size (fields c0) = Finite (of_int (int (length kvs) * s))"
  shows "\<exists>c t'. run clk (puts kvs @ [Get k0, Put k v]) c0 t = Inr (c, t') \<and>
                 resident c = insert k (set (map fst kvs) - {k1})"
proof -
  let ?n = "length kvs"
  define sr :: rat where "sr = of_int s"
  let ?m = "of_nat ?n * sr"
  let ?f0 = "fields c0"
  note n0 = new_cache_fields [OF assms(7)]
  have sz: "\<forall>k v. snd (store_value st k v) = sr" using assms(2) by (simp add: sr_def)
  have pos: "0 < sr" using assms(3) by (simp add: sr_def)
  have mx: "max_size ?f0 = Finite ?m" using assms(8) by (simp add: sr_def)
  let ?items = "fill_items st clk t kvs"
  let ?f1 = "?f0\<lparr>item_dict := item_dict ?f0 @ map (\<lambda>it. (key it, it)) ?items,
                  item_list := item_list ?f0 @ ?items,
                  size_c := size_c ?f0 + of_nat ?n * sr\<rparr>"
  have c0: "c0 = Cache ?f0 None" using n0(6) by (cases c0) simp
  have w0: "wf_fields ?f0" using assms(7) by (rule wf_new_cache)
  have "run clk (puts kvs) (Cache ?f0 None) t = Inr (Cache ?f1 None, t + ?n)"
    using sz pos assms(5) w0
    by (intro fill_run [where s = sr]) (simp_all add: n0 mx keys_of_def)
  then have run1: "run clk (puts kvs) c0 t = Inr (Cache ?f1 None, t + ?n)"
    by (subst c0)
  have w1: "wf_fields ?f1"
    using run_invariant [OF w0 run1] by simp
  let ?it0 = "item_store st clk t k0 v0"
  let ?its = "fill_items st clk (Suc t) ((k1, v1) # rest)"
  have items: "?items = ?it0 # ?its" by (simp add: assms(4))
  have look: "map_of (item_dict ?f1) k0 = Some ?it0"
    by (simp add: n0 items)
  let ?it0' = "access clk (t + ?n) ?it0"
  let ?f2 = "touch clk (t + ?n) k0 ?it0 ?f1"
  have run2: "\<exists>x. get_value clk k0 (Cache ?f1 None) (t + ?n) = Inr (x, Cache ?f2 None, Suc (t + ?n))"
    using get_value_hit [of "Cache ?f1 None" k0 ?it0 clk "t + ?n"] look by simp
  have w2: "wf_fields ?f2" using w1 look by (rule wf_touch)
  have "?it0 \<notin> set ?its"
  proof
    assume "?it0 \<in> set ?its"
    then have "key ?it0 \<in> key ` set ?its" by (rule imageI)
    then have "k0 \<in> set (map key ?its)" by (simp only: set_map item_store_fields)
    then have "k0 \<in> set (map fst ((k1, v1) # rest))" by (simp only: fill_items_keys)
    with assms(4,5) show False by simp
  qed
  then have "map (\<lambda>i. if i = ?it0 then ?it0' else i) ?its = ?its"
    by (intro map_idI) auto
  then have list2: "item_list ?f2 = ?it0' # ?its"
    by (simp add: touch_def n0 items)
  have keys2: "keys_of ?f2 = set (map fst kvs)"
  proof -
    have "keys_of ?f2 = keys_of ?f1" using look by (rule keys_of_touch)
    also have "\<dots> = set (map key ?items)"
      by (simp add: keys_of_def n0 image_image)
    finally show ?thesis by (simp only: fill_items_keys)
  qed
  have static2: "size_c ?f2 = ?m" "max_size ?f2 = Finite ?m" "store ?f2 = st"
    "policy ?f2 = POLICY_LRU"
    by (simp_all add: n0 mx touch_def)
  have absent: "{k} \<inter> keys_of ?f2 = {}" using assms(6) by (simp add: keys2)
  have d2: "drop_keys {k} ?f2 = ?f2" using w2 absent by (rule drop_keys_absent)
  have v: "victims sr ?f2 = [k1]"
  proof -
    have "select_keys sr (Finite ?m) ?m (sort_key POLICY_LRU (?it0' # ?its)) = [k1]"
      using assms(1) sz pos refl
    proof (rule lru_victims)
      show "Suc t + length ((k1, v1) # rest) \<le> t + ?n" by (simp add: assms(4))
      show "access_time ?it0' = clk (t + ?n)" by simp
    qed
    then show ?thesis unfolding victims_def static2 list2 .
  qed
  have run3: "put_value clk k v (Cache ?f2 None) (Suc (t + ?n)) =
                Inr (Cache (put_fields clk (Suc (t + ?n)) k v ?f2) None, Suc (Suc (t + ?n)))"
    using put_value_no_parent [of "Cache ?f2 None" clk k v] w2 by simp
  have res: "keys_of (put_fields clk (Suc (t + ?n)) k v ?f2) = insert k (set (map fst kvs) - {k1})"
  proof -
    have lt: "exceeds (?m + sr) (Finite ?m)" using pos by simp
    have sv: "snd (store_value st k v) = sr" using sz by simp
    show ?thesis
      unfolding keys_of_put_fields d2 static2 sv v keys2 using assms(6) lt by simp
  qed
  from run2 obtain x where g: "get_value clk k0 (Cache ?f1 None) (t + ?n) = Inr (x, Cache ?f2 None, Suc (t + ?n))" ..
  have "run clk [Get k0, Put k v] (Cache ?f1 None) (t + ?n) =
          Inr (Cache (put_fields clk (Suc (t + ?n)) k v ?f2) None, Suc (Suc (t + ?n)))"
    by (simp only: run.simps apply_op.simps g run3 sum.case prod.case)
  then have "run clk (puts kvs @ [Get k0, Put k v]) c0 t =
          Inr (Cache (put_fields clk (Suc (t + ?n)) k v ?f2) None, Suc (Suc (t + ?n)))"
    by (simp only: run_append run1 sum.case prod.case)
  with res show ?thesis by (simp add: resident_keys_of)
qed

text \<open>
  C5, as stated: with a unit-size store, capacity 3, threshold 1.0 and the LRU policy, the
  sequence put a, put b, put c, get a, put d leaves a, c and d resident. Which key is
  evicted depends on the readings of \<^verbatim>\<open>time.clock()\<close>. When the reading taken by the get
  is not later than the readings taken by the puts, as with a clock of coarse
  resolution, all access times are equal, the stable sort of \<^verbatim>\<open>trim\<close> keeps the order of
  insertion, and a is evicted: b, c and d are resident.
\<close>

theorem lru_evicts_first_key_counterexample:
  "observe (run_new coarse_clock [Put ''a'' (PyInt 1), Put ''b'' (PyInt 2), Put ''c'' (PyInt 3),
                                  Get ''a'', Put ''d'' (PyInt 4)]
              (new_cache MemoryCacheStore 3 1 POLICY_LRU None) 0) =
     Inr ([''b'', ''c'', ''d''], 3, Finite 3, None)"
  by code_simp

text \<open>
  C5, amended: under the LRU policy, with access times (the readings of
  \<^verbatim>\<open>time.clock() - _T0\<close>, one for every put and every get) that strictly increase and
  a store that reports the same positive int size \<open>s\<close> for every item, take
  a cache without parent of capacity \<open>N * s\<close> and threshold 1.0, where \<open>N * s\<close> is at most
  \<open>2 ^ 53\<close> (so that \<open>max_size\<close>, a float, is exactly \<open>N * s\<close>). Putting \<open>N\<close> distinct keys
  \<open>k0, k1, ...\<close>, getting \<open>k0\<close> and putting a new key evicts \<open>k1\<close> and no other key. With
  the unit-size store, capacity 3 and threshold 1.0 the sequence put a, put b, put c,
  get a, put d leaves exactly a, c and d resident.
\<close>

theorem lru_evicts_second_key:
  assumes "strict_mono clk"
    and "\<forall>k v. snd (store_value st k v) = of_int s" and "0 < s"
    and "kvs = (k0, v0) # (k1, v1) # rest"
    and "distinct (map fst kvs)" and "k \<notin> set (map fst kvs)"
    and "int (length kvs) * s \<le> 2 ^ 53"
  shows "\<exists>c0 c t'. new_cache st (int (length kvs) * s) 1 POLICY_LRU None = Inr c0 \<and>
           run clk (puts kvs @ [Get k0, Put k v]) c0 t = Inr (c, t') \<and>
           resident c = insert k (set (map fst kvs) - {k1})"
proof -
  have "0 \<le> int (length kvs) * s" using assms(3) by simp
  from new_cache_exact [OF this assms(7)] obtain c0 where
    n: "new_cache st (int (length kvs) * s) 1 POLICY_LRU None = Inr c0"
    and m: "max_size (fields c0) = Finite (of_int (int (length kvs) * s))"
    by blast
  from lru_eviction_at_max_size [OF assms(1-6) n m] n show ?thesis by blast
qed

theorem lru_evicts_second_key_witness:
  "\<exists>c0 c t'. new_cache MemoryCacheStore 3 1 POLICY_LRU None = Inr c0 \<and>
           run tick_clock [Put ''a'' (PyInt 1), Put ''b'' (PyInt 2), Put ''c'' (PyInt 3),
                           Get ''a'', Put ''d'' (PyInt 4)] c0 0 = Inr (c, t') \<and>
           resident c = {''a'', ''c'', ''d''}"
proof -
  have "strict_mono tick_clock" by (simp add: strict_mono_def tick_clock_def)
  moreover have "\<forall>k v. snd (store_value MemoryCacheStore k v) = of_int 1"
    by (simp add: MemoryCacheStore_def)
  moreover have "(0::int) < 1" by simp
  moreover have "[(''a'', PyInt 1), (''b'', PyInt 2), (''c'', PyInt 3)] =
                   (''a'', PyInt 1) # (''b'', PyInt 2) # [(''c'', PyInt 3)]" by simp
  moreover have "distinct (map fst [(''a'', PyInt 1), (''b'', PyInt 2), (''c'', PyInt 3)])"
    by simp
  moreover have "''d'' \<notin> set (map fst [(''a'', PyInt 1), (''b'', PyInt 2), (''c'', PyInt 3)])"
    by simp
  moreover have "int (length [(''a'', PyInt 1), (''b'', PyInt 2), (''c'', PyInt 3)]) * 1 \<le> 2 ^ 53"
    by simp
  ultimately have "\<exists>c0 c t'. new_cache MemoryCacheStore
        (int (length [(''a'', PyInt 1), (''b'', PyInt 2), (''c'', PyInt 3)]) * 1) 1 POLICY_LRU None =
        Inr c0 \<and>
      run tick_clock
        (puts [(''a'', PyInt 1), (''b'', PyInt 2), (''c'', PyInt 3)] @ [Get ''a'', Put ''d'' (PyInt 4)])
        c0 0 = Inr (c, t') \<and>
      resident c = insert ''d'' (set (map fst [(''a'', PyInt 1), (''b'', PyInt 2), (''c'', PyInt 3)]) - {''b''})"
    by (rule lru_evicts_second_key)
  then show ?thesis by (simp add: puts_def insert_commute)
qed

lemma get_value_not_none:
  assumes "get_value clk k c t = Inr (v, c', t')" "v \<noteq> PyNone"
  shows "\<exists>it. map_of (item_dict (fields c)) k = Some it \<and>
              v = restore_value (store (fields c)) k (stored_value it) \<and>
              fields c' = touch clk t k it (fields c)"
proof (cases c)
  case (Cache f par)
  with assms show ?thesis
    by (cases par) (auto simp: touch_def split: option.splits sum.splits bool.splits)
qed

lemma map_of_touch:
  "map_of (item_dict (touch clk t k it f)) k = Some (access clk t it)"
  by (simp add: touch_def AList.update_conv')

lemma map_of_put_fields:
  "map_of (item_dict (put_fields clk t k v f)) k = Some (item_store (store f) clk t k v)"
  by (simp add: put_fields_def Let_def add_item_def AList.update_conv')

lemma MemoryCacheStore_simps [simp]:
  "restore_value MemoryCacheStore k v = v" "store_value MemoryCacheStore k v = (v, 1)"
  by (simp_all add: MemoryCacheStore_def)

lemma get_tile_hit:
  assumes "map_of (item_dict (fields c)) (get_tile_id im x y) = Some it"
    and "restore_value (store (fields c)) (get_tile_id im x y) (stored_value it) = tile"
    and "tile \<noteq> PyNone"
  shows "\<exists>w t'. get_tile clk compute_tile im x y (Some c) t = Inr (tile, w, t', 0)"
  using assms get_value_hit [OF assms(1), of clk t] by (simp add: get_tile_def)

text \<open>
  C8, as stated: for any \<^verbatim>\<open>OpImage\<close> with a cache attached, the second of two successive
  \<^verbatim>\<open>get_tile(x, y)\<close> calls invokes \<^verbatim>\<open>compute_tile\<close> zero times. It fails for a tile
  that is \<^verbatim>\<open>None\<close>, as the \<^verbatim>\<open>compute_tile\<close> of a \<^verbatim>\<open>DecoratorImage\<close> returns when its
  source has no tile: \<^verbatim>\<open>None\<close> is put into the cache, but \<^verbatim>\<open>get_tile\<close> takes a cached
  \<^verbatim>\<open>None\<close> for a miss and computes again.
\<close>

theorem get_tile_twice_counterexample:
  "tile_and_count (with_cache (new_cache MemoryCacheStore 1000 (3 / 4) POLICY_LRU None)
       (\<lambda>tile_cache. get_tile tick_clock
          (DecoratorImage_compute_tile (fixed_tile PyNone) same_tile)
          (image_512 ''img'') 0 0 tile_cache 0)) =
     Inr (PyNone, 1) \<and>
   tile_and_count (then_get_tile tick_clock
       (DecoratorImage_compute_tile (fixed_tile PyNone) same_tile) (image_512 ''img'') 0 0
       (with_cache (new_cache MemoryCacheStore 1000 (3 / 4) POLICY_LRU None)
          (\<lambda>tile_cache. get_tile tick_clock
             (DecoratorImage_compute_tile (fixed_tile PyNone) same_tile)
             (image_512 ''img'') 0 0 tile_cache 0))) =
     Inr (PyNone, 1)"
  by code_simp

text \<open>
  C8, amended: for an \<^verbatim>\<open>OpImage\<close> with a cache attached that uses the default in-memory
  store, when a \<^verbatim>\<open>get_tile(x, y)\<close> call returns a tile that is not \<^verbatim>\<open>None\<close>, the next
  \<^verbatim>\<open>get_tile(x, y)\<close> call returns the same payload and invokes \<^verbatim>\<open>compute_tile\<close> zero
  times. (\<^verbatim>\<open>compute_tile\<close> may use the cache, as the tiles of source images live in it,
  but it hands back a well-formed cache with the same store.)
\<close>

theorem get_tile_twice:
  assumes "wf_fields (fields c)" and "store (fields c) = MemoryCacheStore"
    and "\<forall>tx ty r c0 t0 tile0 w0 t0'.
           wf_fields (fields c0) \<and> compute_tile tx ty r (Some c0) t0 = Inr (tile0, w0, t0') \<longrightarrow>
           (\<exists>c'. w0 = Some c' \<and> wf_fields (fields c') \<and> store (fields c') = store (fields c0))"
    and "get_tile clk compute_tile im x y (Some c) t = Inr (tile, w1, t1, n1)"
    and "tile \<noteq> PyNone"
  shows "\<exists>w2 t2. get_tile clk compute_tile im x y w1 t1 = Inr (tile, w2, t2, 0)"
proof -
  let ?k = "get_tile_id im x y"
  from assms(4) obtain v c1 ta where g: "get_value clk ?k c t = Inr (v, c1, ta)"
    by (auto simp: get_tile_def split: sum.splits)
  note f1 = get_value_fields [OF g]
  have w1: "wf_fields (fields c1)" using assms(1) g by (rule wf_get_value)
  have s1: "store (fields c1) = MemoryCacheStore"
    using assms(2) by (simp add: f1 split: option.splits)
  show ?thesis
  proof (cases "v = PyNone")
    case False
    with assms(4) g have r: "tile = v" "w1 = Some c1" "t1 = ta"
      by (simp_all add: get_tile_def)
    from get_value_not_none [OF g False] obtain it where
      it: "map_of (item_dict (fields c)) ?k = Some it"
        "v = restore_value (store (fields c)) ?k (stored_value it)"
        "fields c1 = touch clk t ?k it (fields c)" by blast
    have "map_of (item_dict (fields c1)) ?k = Some (access clk t it)"
      by (simp add: it(3) map_of_touch)
    moreover have "restore_value (store (fields c1)) ?k (stored_value (access clk t it)) = tile"
      using it(2) assms(2) by (simp add: s1 r(1))
    ultimately show ?thesis unfolding r(2,3) using assms(5)
      by (rule get_tile_hit)
  next
    case True
    with assms(4) g obtain w2 tb where
      cmp: "compute_tile x y (tile_width im * x, tile_height im * y, tile_width im, tile_height im)
              (Some c1) ta = Inr (tile, w2, tb)"
      by (auto simp: get_tile_def split: sum.splits option.splits)
    with assms(3) w1 obtain c2 where c2: "w2 = Some c2" "wf_fields (fields c2)"
      "store (fields c2) = store (fields c1)" by blast
    from assms(4) g True cmp c2(1) obtain c3 where
      p: "put_value clk ?k tile c2 tb = Inr (c3, t1)" and r: "w1 = Some c3"
      by (auto simp: get_tile_def split: sum.splits)
    note f3 = put_value_fields [OF c2(2) p]
    have "map_of (item_dict (fields c3)) ?k = Some (item_store (store (fields c2)) clk tb ?k tile)"
      by (simp add: f3 map_of_put_fields)
    moreover have "restore_value (store (fields c3)) ?k
        (stored_value (item_store (store (fields c2)) clk tb ?k tile)) = tile"
      by (simp add: f3 c2(3) s1)
    ultimately show ?thesis unfolding r using assms(5)
      by (rule get_tile_hit)
  qed
qed

theorem get_tile_twice_witness:
  "\<exists>w1 t1 n1 w2 t2.
     with_cache (new_cache MemoryCacheStore 1000 (3 / 4) POLICY_LRU None)
       (\<lambda>tile_cache. get_tile tick_clock
          (DecoratorImage_compute_tile (fixed_tile (PyImage 7)) same_tile)
          (image_512 ''img'') 0 0 tile_cache 0) =
       Inr (PyImage 7, w1, t1, n1) \<and>
     get_tile tick_clock (DecoratorImage_compute_tile (fixed_tile (PyImage 7)) same_tile)
       (image_512 ''img'') 0 0 w1 t1 = Inr (PyImage 7, w2, t2, 0)"
proof -
  let ?cmp = "DecoratorImage_compute_tile (fixed_tile (PyImage 7)) same_tile"
  let ?r = "with_cache (new_cache MemoryCacheStore 1000 (3 / 4) POLICY_LRU None)
       (\<lambda>tile_cache. get_tile tick_clock ?cmp (image_512 ''img'') 0 0 tile_cache 0)"
  have "tile_and_count ?r = Inr (PyImage 7, 1)"
    by code_simp
  then obtain w1 t1 n1 where first: "?r = Inr (PyImage 7, w1, t1, n1)"
    by (auto simp: tile_and_count_def split: sum.splits)
  from with_cache_Inr [OF first] obtain c0 where
    n: "new_cache MemoryCacheStore 1000 (3 / 4) POLICY_LRU None = Inr c0"
    and g: "get_tile tick_clock ?cmp (image_512 ''img'') 0 0 (Some c0) 0 =
              Inr (PyImage 7, w1, t1, n1)"
    by blast
  have c: "\<forall>tx ty r c0 t0 tile0 w0 t0'.
           wf_fields (fields c0) \<and> ?cmp tx ty r (Some c0) t0 = Inr (tile0, w0, t0') \<longrightarrow>
           (\<exists>c'. w0 = Some c' \<and> wf_fields (fields c') \<and> store (fields c') = store (fields c0))"
    by (auto simp: DecoratorImage_compute_tile_def fixed_tile_def same_tile_def)
  have "store (fields c0) = MemoryCacheStore" using n by (rule new_cache_fields)
  from get_tile_twice [OF wf_new_cache [OF n] this c g] first show ?thesis by blast
qed

lemma default_image_id:
  assumes "AbstractTiledImage_init u sz ts nt m f None = Some (Inr im)"
  shows "image_id im = u"
  using assms
  by (auto simp: AbstractTiledImage_init_def and_then_def split: option.splits sum.splits)

text \<open>
  C9 says that two images constructed without an explicit \<^verbatim>\<open>image_id\<close> get different
  ids, so that their tile ids never collide. The code does not: both get
  \<^verbatim>\<open>str(uuid.uuid4)\<close>, the same string, and their tiles at the same coordinates have the
  same cache key. What the code does:
\<close>

theorem default_image_ids_collide:
  assumes "AbstractTiledImage_init u sz1 ts1 nt1 m1 f1 None = Some (Inr im1)"
    and "AbstractTiledImage_init u sz2 ts2 nt2 m2 f2 None = Some (Inr im2)"
  shows "image_id im1 = image_id im2 \<and> get_tile_id im1 x y = get_tile_id im2 x y"
  using default_image_id [OF assms(1)] default_image_id [OF assms(2)]
  by (simp add: get_tile_id_def)

theorem default_image_ids_collide_witness:
  "\<exists>im1 im2.
     AbstractTiledImage_init ''<function uuid4 at 0x7f3a5c0d1e18>'' (1024, 512) (Some (256, 256))
       None None None None = Some (Inr im1) \<and>
     AbstractTiledImage_init ''<function uuid4 at 0x7f3a5c0d1e18>'' (2048, 2048) (Some (256, 256))
       None None None None = Some (Inr im2) \<and>
     width im1 \<noteq> width im2 \<and> image_id im1 = image_id im2 \<and>
     get_tile_id im1 0 0 = get_tile_id im2 0 0 \<and>
     tile_and_count (then_get_tile tick_clock
         (DecoratorImage_compute_tile (fixed_tile (PyImage 2)) same_tile) im2 0 0
         (with_cache (new_cache MemoryCacheStore 1000 (3 / 4) POLICY_LRU None)
            (\<lambda>tile_cache. get_tile tick_clock
               (DecoratorImage_compute_tile (fixed_tile (PyImage 1)) same_tile)
               im1 0 0 tile_cache 0))) =
       Inr (PyImage 1, 0)"
proof -
  let ?u = "''<function uuid4 at 0x7f3a5c0d1e18>''"
  let ?im1 = "\<lparr>width = 1024, height = 512, tile_width = 256, tile_height = 256,
               num_tiles_x = 4, num_tiles_y = 2, image_id = ?u, mode = None, format = None\<rparr>"
  let ?im2 = "\<lparr>width = 2048, height = 2048, tile_width = 256, tile_height = 256,
               num_tiles_x = 8, num_tiles_y = 8, image_id = ?u, mode = None, format = None\<rparr>"
  have 1: "AbstractTiledImage_init ?u (1024, 512) (Some (256, 256)) None None None None =
             Some (Inr ?im1)"
    by (simp add: AbstractTiledImage_init_def and_then_def cardinal_div_round_def)
  have 2: "AbstractTiledImage_init ?u (2048, 2048) (Some (256, 256)) None None None None =
             Some (Inr ?im2)"
    by (simp add: AbstractTiledImage_init_def and_then_def cardinal_div_round_def)
  have 3: "tile_and_count (then_get_tile tick_clock
         (DecoratorImage_compute_tile (fixed_tile (PyImage 2)) same_tile) ?im2 0 0
         (with_cache (new_cache MemoryCacheStore 1000 (3 / 4) POLICY_LRU None)
            (\<lambda>tile_cache. get_tile tick_clock
               (DecoratorImage_compute_tile (fixed_tile (PyImage 1)) same_tile)
               ?im1 0 0 tile_cache 0))) =
       Inr (PyImage 1, 0)"
    by code_simp
  from default_image_ids_collide [OF 1 2, of 0 0] 1 2 3 show ?thesis
    by (intro exI [of _ ?im1] exI [of _ ?im2]) simp
qed

lemma fast_init_fields:
  assumes "FastNdarrayDownsamplingImage_init su u a ts z n = Some (Inr im)"
  shows "array_shape im = shape a" "2 \<le> length (shape a)" "0 < zoom im"
    "tile_width im = fst ts" "tile_height im = snd ts"
    "zoom im = 2 ^ nat (n - z - 1)"
    "width im = (shape a ! (length (shape a) - 1)) div zoom im"
    "height im = (shape a ! (length (shape a) - 2)) div zoom im"
    "cardinal_div_round (width im) (tile_width im) = Inr (num_tiles_x im)"
    "cardinal_div_round (height im) (tile_height im) = Inr (num_tiles_y im)"
  using assms
  by (auto simp: FastNdarrayDownsamplingImage_init_def AbstractTiledImage_init_def and_then_def
        from_end_def split: if_splits sum.splits option.splits)

lemma fast_actual_tile_size:
  assumes "FastNdarrayDownsamplingImage_init su u a ts z n = Some (Inr im)"
  shows "\<exists>aw ah. actual_tile_size im rectangle = Inr (aw, ah)"
  using fast_init_fields(1,2,3) [OF assms]
  by (cases rectangle) (auto simp: actual_tile_size_def from_end_def)

lemma slice_length_full:
  assumes "0 < step" "0 \<le> x" "0 < w" "(x + w) * step \<le> n"
  shows "slice_length n (x * step) (x * step + w * step) step = w"
proof -
  have x0: "0 \<le> x * step" using assms by simp
  have ws: "0 < w * step" using assms by simp
  have hi: "x * step + w * step \<le> n" using assms(4) by (simp add: algebra_simps)
  have d: "(w * step - 1) div step = w - 1"
  proof -
    have e: "w * step - 1 = (w - 1) * step + (step - 1)" by (simp add: algebra_simps)
    have "((w - 1) * step + (step - 1)) div step = w - 1"
      using assms(1) by (simp add: div_pos_pos_trivial)
    then show ?thesis by (simp only: e)
  qed
  show ?thesis
  proof (cases "x * step + w * step = n")
    case True
    then have "n - x * step - 1 = w * step - 1" by simp
    with True x0 ws assms(1) d show ?thesis by (simp add: slice_length_def Let_def)
  next
    case False
    with hi have "x * step + w * step < n" by simp
    with x0 ws assms(1) d show ?thesis by (simp add: slice_length_def Let_def)
  qed
qed

lemma last_tile_inside:
  assumes "0 < tw" "tw dvd wl" "cardinal_div_round wl tw = Inr nx" "tx < nx" "0 < step"
    "wl = n div step"
  shows "(tw * tx + tw) * step \<le> n"
proof -
  from assms(2) obtain k where k: "wl = tw * k" by (auto simp: dvd_def)
  have "(tw * k + tw - 1) div tw = k"
  proof -
    have e: "tw * k + tw - 1 = k * tw + (tw - 1)" by (simp add: algebra_simps)
    have "(k * tw + (tw - 1)) div tw = k"
      using assms(1) by (simp add: div_pos_pos_trivial)
    then show ?thesis by (simp only: e)
  qed
  with assms(1,3) k have "nx = k" by (simp add: cardinal_div_round_def)
  with assms(4) have "tx + 1 \<le> k" by simp
  with assms(1) have "tw * (tx + 1) \<le> tw * k" by (simp add: mult_left_mono)
  with k have "tw * tx + tw \<le> wl" by (simp add: algebra_simps)
  with assms(5) have "(tw * tx + tw) * step \<le> wl * step" by (simp add: mult_right_mono)
  also have "wl * step \<le> n"
  proof -
    have "wl * step = n - n mod step" using assms(6) by (simp add: minus_mod_eq_div_mult)
    moreover have "0 \<le> n mod step" using assms(5) by simp
    ultimately show ?thesis by simp
  qed
  finally show ?thesis .
qed

text \<open>
  When the tile edges divide the level's width and height, every tile of the grid is cut
  in full, and \<^verbatim>\<open>compute_tile\<close> returns it.
\<close>

lemma fast_compute_tile_full:
  assumes "FastNdarrayDownsamplingImage_init su u a ts z n = Some (Inr im)"
    and "0 < tile_width im" "0 < tile_height im"
    and "tile_width im dvd width im" "tile_height im dvd height im"
    and "0 \<le> tile_x" "tile_x < num_tiles_x im" "0 \<le> tile_y" "tile_y < num_tiles_y im"
  shows "FastNdarrayDownsamplingImage_compute_tile im tile_x tile_y
           (tile_width im * tile_x, tile_height im * tile_y, tile_width im, tile_height im) =
         Inr (take (length (array_shape im) - 2) (array_shape im) @ [tile_height im, tile_width im])"
proof -
  note f = fast_init_fields [OF assms(1)]
  let ?W = "shape a ! (length (shape a) - 1)" and ?H = "shape a ! (length (shape a) - 2)"
  have w: "slice_length ?W (tile_width im * tile_x * zoom im)
             (tile_width im * tile_x * zoom im + tile_width im * zoom im) (zoom im) = tile_width im"
    using assms(2,6) f(3) last_tile_inside [OF assms(2,4) f(9) assms(7) f(3) f(7)]
    by (intro slice_length_full) simp_all
  have h: "slice_length ?H (tile_height im * tile_y * zoom im)
             (tile_height im * tile_y * zoom im + tile_height im * zoom im) (zoom im) = tile_height im"
    using assms(3,8) f(3) last_tile_inside [OF assms(3,5) f(10) assms(9) f(3) f(8)]
    by (intro slice_length_full) simp_all
  from f(1,2,3) w h show ?thesis
    by (simp add: FastNdarrayDownsamplingImage_compute_tile_def actual_tile_size_def from_end_def)
qed

text \<open>
  A level whose width is not a multiple of the tile edge can still have only full tiles:
  a source of width 1023 at zoom 2 has level width 511 and one tile column, and the slice
  \<^verbatim>\<open>0:1024:2\<close> of 1023 columns holds 512 of them.
\<close>

lemma fast_compute_tile_full_odd_width:
  "case FastNdarrayDownsamplingImage_init ''<function uuid4 at 0x7f3a5c0d1e18>''
          ''16fd2706-8baf-433b-82eb-8c7fada847da''
          \<lparr>shape = [1024, 1023], chunks = None, dtype = ''float32''\<rparr> (512, 512) 0 2 of
     Some (Inr im) \<Rightarrow> width im = 511 \<and> num_tiles_x im = 1 \<and> num_tiles_y im = 1 \<and>
       FastNdarrayDownsamplingImage_compute_tile im 0 0 (0, 0, 512, 512) = Inr [512, 512]
   | _ \<Rightarrow> False"
  by code_simp

text \<open>
  C10: \<^verbatim>\<open>FastNdarrayDownsamplingImage.compute_tile\<close> either returns a tile whose spatial
  shape is exactly the tile size, or raises \<^verbatim>\<open>AssertionError\<close>; whenever the strided
  slice is smaller than the tile size in width or in height, it raises.
\<close>

theorem fast_compute_tile_exact:
  assumes "FastNdarrayDownsamplingImage_init su u a ts z n = Some (Inr im)"
  shows "((\<exists>sh. FastNdarrayDownsamplingImage_compute_tile im tile_x tile_y rectangle = Inr sh \<and>
             from_end sh 1 = Inr (tile_width im) \<and> from_end sh 2 = Inr (tile_height im)) \<or>
          FastNdarrayDownsamplingImage_compute_tile im tile_x tile_y rectangle = Inl AssertionError) \<and>
         (\<forall>aw ah. actual_tile_size im rectangle = Inr (aw, ah) \<and>
                   (aw < tile_width im \<or> ah < tile_height im) \<longrightarrow>
            FastNdarrayDownsamplingImage_compute_tile im tile_x tile_y rectangle =
              Inl AssertionError)"
proof -
  from fast_actual_tile_size [OF assms] obtain aw ah where
    a: "actual_tile_size im rectangle = Inr (aw, ah)" by blast
  have l: "2 \<le> length (array_shape im)"
    using fast_init_fields(1,2) [OF assms] by simp
  have "Suc (length (array_shape im) - 2) - min (length (array_shape im)) (length (array_shape im) - 2) = 1"
    using l by arith
  with l show ?thesis
    by (auto simp: FastNdarrayDownsamplingImage_compute_tile_def a from_end_def nth_append)
qed

theorem fast_compute_tile_exact_witness:
  "\<exists>im. FastNdarrayDownsamplingImage_init ''<function uuid4 at 0x7f3a5c0d1e18>''
           ''16fd2706-8baf-433b-82eb-8c7fada847da''
           \<lparr>shape = [3, 1000, 1024], chunks = None, dtype = ''float32''\<rparr> (512, 512) 0 1 =
           Some (Inr im) \<and>
        num_tiles_x im = 2 \<and> num_tiles_y im = 2 \<and>
        FastNdarrayDownsamplingImage_compute_tile im 0 0 (0, 0, 512, 512) = Inr [3, 512, 512] \<and>
        actual_tile_size im (0, 512, 512, 512) = Inr (512, 488) \<and>
        FastNdarrayDownsamplingImage_compute_tile im 0 1 (0, 512, 512, 512) = Inl AssertionError"
proof -
  let ?r = "FastNdarrayDownsamplingImage_init ''<function uuid4 at 0x7f3a5c0d1e18>''
           ''16fd2706-8baf-433b-82eb-8c7fada847da''
           \<lparr>shape = [3, 1000, 1024], chunks = None, dtype = ''float32''\<rparr> (512, 512) 0 1"
  have "case ?r of
          Some (Inr im) \<Rightarrow> num_tiles_x im = 2 \<and> num_tiles_y im = 2 \<and>
            FastNdarrayDownsamplingImage_compute_tile im 0 0 (0, 0, 512, 512) = Inr [3, 512, 512] \<and>
            actual_tile_size im (0, 512, 512, 512) = Inr (512, 488) \<and> tile_height im = 512
        | _ \<Rightarrow> False"
    by code_simp
  then obtain im where im: "?r = Some (Inr im)" "num_tiles_x im = 2" "num_tiles_y im = 2"
    "FastNdarrayDownsamplingImage_compute_tile im 0 0 (0, 0, 512, 512) = Inr [3, 512, 512]"
    "actual_tile_size im (0, 512, 512, 512) = Inr (512, 488)" "tile_height im = 512"
    by (auto split: option.splits sum.splits)
  from fast_compute_tile_exact [OF im(1), of 0 1 "(0, 512, 512, 512)"] im(5,6)
  have "FastNdarrayDownsamplingImage_compute_tile im 0 1 (0, 512, 512, 512) = Inl AssertionError"
    by simp
  with im show ?thesis by blast
qed

end
